theory Spec2Isabelle
  imports Main "HOL-Library.Word" "HOL-Library.Sublist"
begin

chapter \<open>The model\<close>

section \<open>Data model of the agent (server.go)\<close>

type_synonym uint64 = "64 word"

text \<open>
  The lifecycle constants of lines 27-31 (\<open>int64\<close>, numbered by \<open>iota\<close>).
\<close>

definition STATUS_NOT_STARTED :: int where
  "STATUS_NOT_STARTED = 0"

definition STATUS_RUNNING :: int where
  "STATUS_RUNNING = 1"

definition STATUS_COMPLETED :: int where
  "STATUS_COMPLETED = 2"

text \<open>
  \<open>pb.JobStatus\<close> and \<open>pb.JobRequest\<close> are generated protobuf structs; their
  fields are the ones server.go reads and writes. The three sequences (\<open>Stdout\<close>,
  \<open>Stderr\<close>, \<open>Args\<close>) are Go slices: the record is polymorphic in their
  representation, \<open>string list\<close> for the value a reader sees and \<open>slice\<close>
  (below) for the header that the struct really holds. The \<open>int64\<close> fields are
  only assigned and compared, never computed with, so they are \<open>int\<close>; the
  \<open>uint64\<close> id is incremented and is a 64-bit word.
\<close>

record 'seq JobStatus =
  JobID :: uint64
  JobName :: string
  Status :: int
  CommandName :: string
  PID :: int
  StartTime :: int
  FinishTime :: int
  ExitCode :: int
  Error :: string
  Stdout :: 'seq
  Stderr :: 'seq
  Args :: 'seq

record JobRequest =
  reqJobName :: string
  reqCommandName :: string
  Arguments :: "string list"

text \<open>
  What \<open>cmd.Wait()\<close> returned (line 338), by the three cases lines 354-365
  distinguish: an \<open>*exec.ExitError\<close> whose \<open>Sys()\<close> is a
  \<open>syscall.WaitStatus\<close> (with its \<open>ExitStatus()\<close> and its \<open>Error()\<close>),
  an \<open>*exec.ExitError\<close> of another kind, and any other error. \<open>None\<close> is
  the nil error.
\<close>

datatype exit_error =
    ExitStatusError int string
  | ExitOtherSys string
  | WaitFailed string

text \<open>
  The program counter of one \<open>runJob\<close> goroutine: the points between which the
  function either calls the operating system or holds \<open>statusM\<close>.
\<close>

datatype runner_pc =
    AtResolve
  | AtStdoutPipe
  | AtStderrPipe
  | AtStart
  | AtSetRunning
  | AtWait
  | AtFinalize
  | Returned
  | Panicked

text \<open>
  The local variables of \<open>runJob\<close>: \<open>commandToExecute\<close>, \<open>cmd.Process\<close>
  (nil until \<open>cmd.Start()\<close> succeeds) and \<open>exitError\<close>.
\<close>

record runJob_frame =
  pc :: runner_pc
  commandToExecute :: string
  cmdProcess :: "int option"
  exitError :: "exit_error option"

text \<open>
  One \<open>copyPipeToStringArray\<close> goroutine: not launched yet; about to call
  \<open>ReadString\<close> on a reader that will still deliver the given bytes; holding a
  string read with a nil error, about to lock and append it; or past the loop.
\<close>

datatype collector =
    NotLaunched
  | Reading string
  | Holding string string
  | Finished

text \<open>
  A \<open>runningJob\<close> object together with the goroutines that work on it. The field
  \<open>Status\<close> of the Go struct is \<open>jobStatus\<close> here, because \<open>Status\<close> is
  already the lifecycle field of \<open>JobStatus\<close>. The three mutexes are not data:
  every region that holds one is a single step of the model.
\<close>

record runningJob =
  jobStatus :: "string list JobStatus"
  runner :: runJob_frame
  stdoutC :: collector
  stderrC :: collector

text \<open>
  The \<open>server\<close> struct (\<open>allJobs\<close>, \<open>runnableCommands\<close>, \<open>nextID\<close>)
  and the rest of the process: the \<open>runningJob\<close> objects allocated so far, by
  address (\<open>allJobs\<close> maps an id to the address of its object), the wall clock
  that \<open>time.Now().Unix()\<close> reads, and whether a goroutine has panicked, which
  ends the whole process.
\<close>

record agent =
  allJobs :: "uint64 \<rightharpoonup> nat"
  runnableCommands :: "string \<rightharpoonup> string"
  nextID :: uint64
  objs :: "runningJob list"
  now :: int
  crashed :: bool

definition NewServer :: "(string \<rightharpoonup> string) \<Rightarrow> int \<Rightarrow> agent" where
  "NewServer commands t0 =
     \<lparr>allJobs = Map.empty, runnableCommands = commands, nextID = 0,
      objs = [], now = t0, crashed = False\<rparr>"

section \<open>The id allocator\<close>

text \<open>
  Lines 382-388. The body runs under \<open>IDm\<close>, so a call is one step; \<open>s.nextID++\<close>
  is the addition of \<open>uint64\<close>, which wraps.
\<close>

definition getNewJobID :: "agent \<Rightarrow> uint64 \<times> agent" where
  "getNewJobID s = (let myID = nextID s in (myID, s\<lparr>nextID := nextID s + 1\<rparr>))"

text \<open>\<open>n\<close> calls in a row, with the ids in the order they were returned.\<close>

fun allocate :: "nat \<Rightarrow> agent \<Rightarrow> uint64 list \<times> agent" where
  "allocate 0 s = ([], s)"
| "allocate (Suc n) s =
     (case getNewJobID s of (i, s') \<Rightarrow>
        (case allocate n s' of (ids, s'') \<Rightarrow> (i # ids, s'')))"

section \<open>The output collector\<close>

subsection \<open>\<open>strings.TrimSpace\<close>\<close>

text \<open>
  \<open>strings.TrimSpace\<close> of the Go library removes the leading and the trailing
  white space of a string, a rune at a time, where white space is what
  \<open>unicode.IsSpace\<close> accepts: U+0009 to U+000D, U+0020, U+0085, U+00A0, U+1680,
  U+2000 to U+200A, U+2028, U+2029, U+202F, U+205F and U+3000. A Go string is a
  sequence of bytes, so these are matched in UTF-8. \<open>spaceAtStart\<close> is the
  width in bytes of a white space rune at the start of the string (0 if there is
  none), \<open>spaceAtEnd\<close> the same at the end, on the reversed string.
\<close>

definition asciiSpace :: "char \<Rightarrow> bool" where
  "asciiSpace c =
     (c = CHR 0x09 \<or> c = CHR 0x0A \<or> c = CHR 0x0B \<or> c = CHR 0x0C \<or> c = CHR 0x0D \<or> c = CHR 0x20)"

definition generalPunctuationSpace :: "char \<Rightarrow> bool" where
  "generalPunctuationSpace c =
     ((of_char c :: nat) \<in> {0x80..0x8A} \<or> c = CHR 0xA8 \<or> c = CHR 0xA9 \<or> c = CHR 0xAF)"

fun spaceAtStart :: "string \<Rightarrow> nat" where
  "spaceAtStart [] = 0"
| "spaceAtStart [a] = (if asciiSpace a then 1 else 0)"
| "spaceAtStart [a, b] =
     (if asciiSpace a then 1
      else if a = CHR 0xC2 \<and> (b = CHR 0x85 \<or> b = CHR 0xA0) then 2 else 0)"
| "spaceAtStart (a # b # c # _) =
     (if asciiSpace a then 1
      else if a = CHR 0xC2 \<and> (b = CHR 0x85 \<or> b = CHR 0xA0) then 2
      else if a = CHR 0xE1 \<and> b = CHR 0x9A \<and> c = CHR 0x80 then 3
      else if a = CHR 0xE2 \<and> b = CHR 0x80 \<and> generalPunctuationSpace c then 3
      else if a = CHR 0xE2 \<and> b = CHR 0x81 \<and> c = CHR 0x9F then 3
      else if a = CHR 0xE3 \<and> b = CHR 0x80 \<and> c = CHR 0x80 then 3
      else 0)"

fun spaceAtEnd :: "string \<Rightarrow> nat" where
  "spaceAtEnd [] = 0"
| "spaceAtEnd [c] = (if asciiSpace c then 1 else 0)"
| "spaceAtEnd [c, b] =
     (if asciiSpace c then 1
      else if b = CHR 0xC2 \<and> (c = CHR 0x85 \<or> c = CHR 0xA0) then 2 else 0)"
| "spaceAtEnd (c # b # a # _) =
     (if asciiSpace c then 1
      else if b = CHR 0xC2 \<and> (c = CHR 0x85 \<or> c = CHR 0xA0) then 2
      else if a = CHR 0xE1 \<and> b = CHR 0x9A \<and> c = CHR 0x80 then 3
      else if a = CHR 0xE2 \<and> b = CHR 0x80 \<and> generalPunctuationSpace c then 3
      else if a = CHR 0xE2 \<and> b = CHR 0x81 \<and> c = CHR 0x9F then 3
      else if a = CHR 0xE3 \<and> b = CHR 0x80 \<and> c = CHR 0x80 then 3
      else 0)"

function trimLeft :: "string \<Rightarrow> string" where
  "trimLeft s = (if spaceAtStart s = 0 then s else trimLeft (drop (spaceAtStart s) s))"
  by pat_completeness auto
termination
proof (relation "measure length")
  show "wf (measure length)" by simp
next
  fix s :: string
  assume "spaceAtStart s \<noteq> 0"
  then have "s \<noteq> []" by auto
  with \<open>spaceAtStart s \<noteq> 0\<close> show "(drop (spaceAtStart s) s, s) \<in> measure length"
    by simp
qed

function trimRightRev :: "string \<Rightarrow> string" where
  "trimRightRev r = (if spaceAtEnd r = 0 then r else trimRightRev (drop (spaceAtEnd r) r))"
  by pat_completeness auto
termination
proof (relation "measure length")
  show "wf (measure length)" by simp
next
  fix r :: string
  assume "spaceAtEnd r \<noteq> 0"
  then have "r \<noteq> []" by auto
  with \<open>spaceAtEnd r \<noteq> 0\<close> show "(drop (spaceAtEnd r) r, r) \<in> measure length"
    by simp
qed

definition TrimSpace :: "string \<Rightarrow> string" where
  "TrimSpace s = rev (trimRightRev (rev (trimLeft s)))"

subsection \<open>\<open>bufio.Reader.ReadString\<close> and the loop of lines 262-272\<close>

text \<open>
  The reader is the sequence of bytes it delivers before its first error, the end of
  the stream or any other. \<open>ReadString delim\<close> returns the bytes up to and with
  the first \<open>delim\<close> and a nil error, or, when the error comes first, the bytes
  read so far and that error. The result is the string, whether the error is nil, and
  what is left of the reader.
\<close>

fun ReadString :: "char \<Rightarrow> string \<Rightarrow> (string \<times> bool) \<times> string" where
  "ReadString delim [] = (([], False), [])"
| "ReadString delim (c # cs) =
     (if c = delim then (([c], True), cs)
      else (case ReadString delim cs of ((s, ok), rest) \<Rightarrow> ((c # s, ok), rest)))"

definition newline :: char where
  "newline = CHR 0x0A"

lemma ReadString_rest_shorter:
  "ReadString delim rc = ((s, True), rest) \<Longrightarrow> length rest < length rc"
proof (induction rc arbitrary: s)
  case Nil
  then show ?case by simp
next
  case (Cons c cs)
  show ?case
  proof (cases "c = delim")
    case True
    with Cons.prems show ?thesis by simp
  next
    case False
    obtain s' ok' rest' where r: "ReadString delim cs = ((s', ok'), rest')"
      by (metis prod.exhaust)
    with False Cons.prems have "ok' = True" "rest' = rest" by simp_all
    with r Cons.IH have "length rest < length cs" by simp
    then show ?thesis by simp
  qed
qed

text \<open>
  \<open>copyPipeToStringArray rc dest\<close>: the value of \<open>*dest\<close> when the function
  returns. Each append is under the mutex \<open>m\<close>, so it is one step; the function is
  what one goroutine does to \<open>*dest\<close> from the first read to the last.
\<close>

function copyPipeToStringArray :: "string \<Rightarrow> string list \<Rightarrow> string list" where
  "copyPipeToStringArray rc dest =
     (case ReadString newline rc of
        ((s, ok), rest) \<Rightarrow>
          if ok then copyPipeToStringArray rest (dest @ [TrimSpace s]) else dest)"
  by pat_completeness auto
termination
proof (relation "measure (\<lambda>(rc, dest). length rc)")
  show "wf (measure (\<lambda>(rc, dest). length rc))" by simp
next
  fix rc :: string and dest :: "string list" and x rest s ok
  assume "(x, rest) = ReadString newline rc" "(s, ok) = x" "ok"
  then have "ReadString newline rc = ((s, True), rest)"
    by (metis (full_types))
  then have "length rest < length rc"
    by (rule ReadString_rest_shorter)
  then show "((rest, dest @ [TrimSpace s]), (rc, dest)) \<in> measure (\<lambda>(rc, dest). length rc)"
    by simp
qed

declare copyPipeToStringArray.simps [simp del]

declare trimLeft.simps [simp del]

declare trimRightRev.simps [simp del]

section \<open>The job runner\<close>

subsection \<open>The writes of \<open>runJob\<close> to the status\<close>

text \<open>
  The three blocks of \<open>runJob\<close> that hold \<open>statusM\<close>. They touch no sequence,
  so they are the same function on a status of headers and on a status of values.
  \<open>markFailed\<close> is lines 280-283, 297-300 and 308-311; \<open>markRunning\<close> is line
  327 and \<open>recordPID\<close> line 330, which a nil \<open>cmd.Process\<close> never reaches;
  \<open>finalize\<close> is lines 344-374.
\<close>

definition markFailed :: "string \<Rightarrow> 'seq JobStatus \<Rightarrow> 'seq JobStatus" where
  "markFailed msg st = st\<lparr>Status := STATUS_COMPLETED, Error := msg\<rparr>"

definition markRunning :: "'seq JobStatus \<Rightarrow> 'seq JobStatus" where
  "markRunning st = st\<lparr>Status := STATUS_RUNNING\<rparr>"

definition recordPID :: "int \<Rightarrow> 'seq JobStatus \<Rightarrow> 'seq JobStatus" where
  "recordPID p st = st\<lparr>PID := p\<rparr>"

definition finalize :: "int \<Rightarrow> exit_error option \<Rightarrow> 'seq JobStatus \<Rightarrow> 'seq JobStatus" where
  "finalize t e st =
     (let st1 = st\<lparr>FinishTime := t\<rparr>;
          st2 = (case e of
                   None \<Rightarrow> st1\<lparr>ExitCode := 0\<rparr>
                 | Some (ExitStatusError code msg) \<Rightarrow> st1\<lparr>ExitCode := code, Error := msg\<rparr>
                 | Some (ExitOtherSys msg) \<Rightarrow> st1\<lparr>Error := msg\<rparr>
                 | Some (WaitFailed msg) \<Rightarrow> st1\<lparr>Error := msg\<rparr>)
      in st2\<lparr>Status := STATUS_COMPLETED\<rparr>)"

subsection \<open>One step of \<open>runJob\<close>\<close>

text \<open>
  What the operating system answers to the call a step makes: to \<open>StdoutPipe\<close> and
  \<open>StderrPipe\<close> an error, or a pipe whose reader will deliver the given bytes; to
  \<open>cmd.Start()\<close> an error, or the pid of the child; to \<open>cmd.Wait()\<close> its error.
  \<open>NoCall\<close> goes with the steps that call nothing.
\<close>

datatype os_result =
    NoCall
  | PipeResult "string + string"
  | StartResult "string + int"
  | WaitResult "exit_error option"

text \<open>
  \<open>runJob_step commands t os job\<close> runs the goroutine from its program counter to
  the next one: \<open>commands\<close> is \<open>s.runnableCommands\<close>, \<open>t\<close> the clock. The
  result is the job and whether the step panicked. Line 320 drops the error of
  \<open>cmd.Start()\<close>: after a failed start \<open>cmd.Process\<close> is nil, line 327 still
  runs, and line 330 dereferences nil.
\<close>

definition runJob_step ::
  "(string \<rightharpoonup> string) \<Rightarrow> int \<Rightarrow> os_result \<Rightarrow> runningJob \<Rightarrow> runningJob \<times> bool" where
  "runJob_step commands t os job =
     (let st = jobStatus job; fr = runner job in
      case pc fr of
        AtResolve \<Rightarrow>
          (case commands (CommandName st) of
             None \<Rightarrow>
               (job\<lparr>jobStatus := markFailed (''Unable to find job for '' @ CommandName st) st,
                    runner := fr\<lparr>pc := Returned\<rparr>\<rparr>, False)
           | Some c \<Rightarrow>
               (job\<lparr>runner := fr\<lparr>commandToExecute := c, pc := AtStdoutPipe\<rparr>\<rparr>, False))
      | AtStdoutPipe \<Rightarrow>
          (case os of
             PipeResult (Inl err) \<Rightarrow>
               (job\<lparr>jobStatus := markFailed err st, runner := fr\<lparr>pc := Returned\<rparr>\<rparr>, False)
           | PipeResult (Inr bytes) \<Rightarrow>
               (job\<lparr>stdoutC := Reading bytes, runner := fr\<lparr>pc := AtStderrPipe\<rparr>\<rparr>, False)
           | _ \<Rightarrow> (job, False))
      | AtStderrPipe \<Rightarrow>
          (case os of
             PipeResult (Inl err) \<Rightarrow>
               (job\<lparr>jobStatus := markFailed err st, runner := fr\<lparr>pc := Returned\<rparr>\<rparr>, False)
           | PipeResult (Inr bytes) \<Rightarrow>
               (job\<lparr>stderrC := Reading bytes, runner := fr\<lparr>pc := AtStart\<rparr>\<rparr>, False)
           | _ \<Rightarrow> (job, False))
      | AtStart \<Rightarrow>
          (case os of
             StartResult (Inl err) \<Rightarrow>
               (job\<lparr>runner := fr\<lparr>cmdProcess := None, pc := AtSetRunning\<rparr>\<rparr>, False)
           | StartResult (Inr p) \<Rightarrow>
               (job\<lparr>runner := fr\<lparr>cmdProcess := Some p, pc := AtSetRunning\<rparr>\<rparr>, False)
           | _ \<Rightarrow> (job, False))
      | AtSetRunning \<Rightarrow>
          (case cmdProcess fr of
             None \<Rightarrow> (job\<lparr>jobStatus := markRunning st, runner := fr\<lparr>pc := Panicked\<rparr>\<rparr>, True)
           | Some p \<Rightarrow>
               (job\<lparr>jobStatus := recordPID p (markRunning st), runner := fr\<lparr>pc := AtWait\<rparr>\<rparr>,
                False))
      | AtWait \<Rightarrow>
          (case os of
             WaitResult e \<Rightarrow> (job\<lparr>runner := fr\<lparr>exitError := e, pc := AtFinalize\<rparr>\<rparr>, False)
           | _ \<Rightarrow> (job, False))
      | AtFinalize \<Rightarrow>
          (job\<lparr>jobStatus := finalize t (exitError fr) st, runner := fr\<lparr>pc := Returned\<rparr>\<rparr>, False)
      | Returned \<Rightarrow> (job, False)
      | Panicked \<Rightarrow> (job, False))"

subsection \<open>One step of a collector\<close>

text \<open>
  The loop of \<open>copyPipeToStringArray\<close> in two steps, as the goroutine takes them:
  the read (lines 265 and 270, outside the mutex) and the append (lines 267-269,
  under it).
\<close>

definition collector_read :: "collector \<Rightarrow> collector" where
  "collector_read c =
     (case c of
        Reading rc \<Rightarrow>
          (case ReadString newline rc of ((s, ok), rest) \<Rightarrow> if ok then Holding s rest else Finished)
      | _ \<Rightarrow> c)"

definition collector_append :: "collector \<Rightarrow> string list \<Rightarrow> collector \<times> string list" where
  "collector_append c dest =
     (case c of
        Holding s rest \<Rightarrow> (Reading rest, dest @ [TrimSpace s])
      | _ \<Rightarrow> (c, dest))"

section \<open>The server\<close>

text \<open>
  \<open>CopyStatus\<close>, line 84: \<open>*jc = *(rj.Status)\<close> copies the struct field by
  field. A sequence field is copied as it is held: on a status of slice headers the
  copy has the same headers. The three locks make the copy one step.
\<close>

definition CopyStatus :: "'seq JobStatus \<Rightarrow> 'seq JobStatus" where
  "CopyStatus st =
     \<lparr>JobID = JobID st, JobName = JobName st, Status = Status st,
      CommandName = CommandName st, PID = PID st, StartTime = StartTime st,
      FinishTime = FinishTime st, ExitCode = ExitCode st, Error = Error st,
      Stdout = Stdout st, Stderr = Stderr st, Args = Args st\<rparr>"

text \<open>
  The errors of lines 188, 203, 207, 213 and 219, each made by \<open>fmt.Errorf\<close> from
  the job id (and the pid and the cause, for the last two).
\<close>

datatype error =
    JobNotFound uint64
  | JobNotRunning uint64
  | ProcessNotFound uint64 int string
  | ErrorKilling uint64 int string

text \<open>
  Lines 231-254 of \<open>StartJob\<close>, up to and with \<open>go s.runJob(newJob)\<close>. The new
  object is reachable by no other goroutine before line 251, so the lines are one
  step. The fields the struct literal leaves out are the zero values of Go.
\<close>

definition StartJob_spawn :: "JobRequest \<Rightarrow> agent \<Rightarrow> agent" where
  "StartJob_spawn details s =
     (case getNewJobID s of
        (newID, s1) \<Rightarrow>
          (let newJobStatus =
                 \<lparr>JobID = newID, JobName = reqJobName details, Status = STATUS_NOT_STARTED,
                  CommandName = reqCommandName details, PID = 0, StartTime = now s1,
                  FinishTime = 0, ExitCode = - 1, Error = [],
                  Stdout = [], Stderr = [], Args = Arguments details\<rparr>;
               newJob =
                 \<lparr>jobStatus = newJobStatus,
                  runner = \<lparr>pc = AtResolve, commandToExecute = [], cmdProcess = None,
                            exitError = None\<rparr>,
                  stdoutC = NotLaunched, stderrC = NotLaunched\<rparr>
           in s1\<lparr>objs := objs s1 @ [newJob],
                  allJobs := (allJobs s1)(newID \<mapsto> length (objs s1))\<rparr>))"

text \<open>Lines 183-193.\<close>

definition getJobStatus :: "uint64 \<Rightarrow> agent \<Rightarrow> error + string list JobStatus" where
  "getJobStatus jid s =
     (case allJobs s jid of
        None \<Rightarrow> Inl (JobNotFound jid)
      | Some a \<Rightarrow> Inr (CopyStatus (jobStatus (objs s ! a))))"

text \<open>
  Lines 197-225. What \<open>os.FindProcess\<close> and \<open>proc.Signal\<close> do is the
  environment's answer. The function writes nothing: the state it returns is the
  state it was given.
\<close>

datatype signal_result =
    FindProcessError string
  | SignalError string
  | Signalled

definition StopJob ::
  "uint64 \<Rightarrow> signal_result \<Rightarrow> agent \<Rightarrow> (error + string list JobStatus) \<times> agent" where
  "StopJob jid os s =
     (case allJobs s jid of
        None \<Rightarrow> (Inl (JobNotFound jid), s)
      | Some a \<Rightarrow>
          (let job = objs s ! a in
           if Status (jobStatus job) \<noteq> STATUS_RUNNING then (Inl (JobNotRunning jid), s)
           else
             (case os of
                FindProcessError e \<Rightarrow> (Inl (ProcessNotFound jid (PID (jobStatus job)) e), s)
              | SignalError e \<Rightarrow> (Inl (ErrorKilling jid (PID (jobStatus job)) e), s)
              | Signalled \<Rightarrow> (getJobStatus jid s, s))))"

text \<open>
  Lines 160-174. Line 164 returns nil before the loop of lines 165-172, which is
  never run: the result is the nil error and the ids sent on the stream, none.
\<close>

definition GetJobs :: "int \<Rightarrow> agent \<Rightarrow> error option \<times> uint64 list" where
  "GetJobs since s = (None, [])"

text \<open>
  What the comment of line 159 and the loop after the return describe: the ids of
  the registered jobs that started after \<open>since\<close>.
\<close>

definition jobsStartedAfter :: "agent \<Rightarrow> int \<Rightarrow> uint64 set" where
  "jobsStartedAfter s since =
     {jid. \<exists>a. allJobs s jid = Some a \<and> since < StartTime (jobStatus (objs s ! a))}"

section \<open>The process as a transition system\<close>

text \<open>
  The goroutines interleave at the steps above. An event is one step of one of
  them, or the wall clock moving: forward as time passes, or back when it is set. A call of
  \<open>StopJob\<close> is an event for what it does to the state; \<open>getJobStatus\<close> and
  \<open>GetJobs\<close> return no state and are no events. After a panic the process is gone
  and nothing steps.
\<close>

datatype event =
    Tick int
  | StartJobCalled JobRequest
  | RunJobStep nat os_result
  | StdoutRead nat
  | StdoutAppend nat
  | StderrRead nat
  | StderrAppend nat
  | StopJobCalled uint64 signal_result

definition appendStdout :: "runningJob \<Rightarrow> runningJob" where
  "appendStdout j =
     (case collector_append (stdoutC j) (Stdout (jobStatus j)) of
        (c, dest) \<Rightarrow> j\<lparr>stdoutC := c, jobStatus := (jobStatus j)\<lparr>Stdout := dest\<rparr>\<rparr>)"

definition appendStderr :: "runningJob \<Rightarrow> runningJob" where
  "appendStderr j =
     (case collector_append (stderrC j) (Stderr (jobStatus j)) of
        (c, dest) \<Rightarrow> j\<lparr>stderrC := c, jobStatus := (jobStatus j)\<lparr>Stderr := dest\<rparr>\<rparr>)"

definition updateJob :: "nat \<Rightarrow> (runningJob \<Rightarrow> runningJob) \<Rightarrow> agent \<Rightarrow> agent" where
  "updateJob a f s =
     (if a < length (objs s) then s\<lparr>objs := (objs s)[a := f (objs s ! a)]\<rparr> else s)"

definition step :: "event \<Rightarrow> agent \<Rightarrow> agent" where
  "step ev s =
     (if crashed s then s
      else
        (case ev of
           Tick d \<Rightarrow> s\<lparr>now := now s + d\<rparr>
         | StartJobCalled details \<Rightarrow> StartJob_spawn details s
         | RunJobStep a os \<Rightarrow>
             (if a < length (objs s) then
                (case runJob_step (runnableCommands s) (now s) os (objs s ! a) of
                   (job', panic) \<Rightarrow> s\<lparr>objs := (objs s)[a := job'], crashed := panic\<rparr>)
              else s)
         | StdoutRead a \<Rightarrow> updateJob a (\<lambda>j. j\<lparr>stdoutC := collector_read (stdoutC j)\<rparr>) s
         | StdoutAppend a \<Rightarrow> updateJob a appendStdout s
         | StderrRead a \<Rightarrow> updateJob a (\<lambda>j. j\<lparr>stderrC := collector_read (stderrC j)\<rparr>) s
         | StderrAppend a \<Rightarrow> updateJob a appendStderr s
         | StopJobCalled jid os \<Rightarrow> snd (StopJob jid os s)))"

fun exec :: "event list \<Rightarrow> agent \<Rightarrow> agent" where
  "exec [] s = s"
| "exec (e # es) s = exec es (step e s)"


section \<open>Complete lines\<close>

text \<open>
  A complete line, in the words of the specification: bytes that end with the
  delimiter and hold no other.
\<close>

definition terminatedLine :: "string \<Rightarrow> bool" where
  "terminatedLine l = (l \<noteq> [] \<and> last l = newline \<and> newline \<notin> set (butlast l))"

section \<open>The moves of one job\<close>

text \<open>
  What a step of the process can make of one job: nothing, or one step of its
  runner, or one step of one of its collectors.
\<close>

inductive jobMoves :: "(string \<rightharpoonup> string) \<Rightarrow> int \<Rightarrow> runningJob \<Rightarrow> runningJob \<Rightarrow> bool"
  for c :: "string \<rightharpoonup> string" and t :: int where
    stays: "jobMoves c t j j"
  | runs: "jobMoves c t j (fst (runJob_step c t os j))"
  | stdoutReads: "jobMoves c t j (j\<lparr>stdoutC := collector_read (stdoutC j)\<rparr>)"
  | stdoutAppends: "jobMoves c t j (appendStdout j)"
  | stderrReads: "jobMoves c t j (j\<lparr>stderrC := collector_read (stderrC j)\<rparr>)"
  | stderrAppends: "jobMoves c t j (appendStderr j)"

section \<open>The invariant of a job\<close>

text \<open>
  What holds of a job at each program counter of its runner: before line 327 the
  status is as \<open>StartJob\<close> made it, between line 332 and line 344 it is running
  with the pid of the child, and after the return it is completed.
\<close>

definition notStarted :: "string list JobStatus \<Rightarrow> bool" where
  "notStarted st =
     (Status st = STATUS_NOT_STARTED \<and> Error st = [] \<and> ExitCode st = - 1 \<and> PID st = 0)"

definition started :: "runJob_frame \<Rightarrow> string list JobStatus \<Rightarrow> bool" where
  "started fr st =
     (Status st = STATUS_RUNNING \<and> Error st = [] \<and> ExitCode st = - 1 \<and>
      cmdProcess fr = Some (PID st))"

fun pc_ok :: "runner_pc \<Rightarrow> runJob_frame \<Rightarrow> string list JobStatus \<Rightarrow> bool" where
  "pc_ok AtResolve fr st = (notStarted st \<and> cmdProcess fr = None \<and> exitError fr = None)"
| "pc_ok AtStdoutPipe fr st = (notStarted st \<and> cmdProcess fr = None \<and> exitError fr = None)"
| "pc_ok AtStderrPipe fr st = (notStarted st \<and> cmdProcess fr = None \<and> exitError fr = None)"
| "pc_ok AtStart fr st = (notStarted st \<and> cmdProcess fr = None \<and> exitError fr = None)"
| "pc_ok AtSetRunning fr st = (notStarted st \<and> exitError fr = None)"
| "pc_ok AtWait fr st = (started fr st \<and> exitError fr = None)"
| "pc_ok AtFinalize fr st = started fr st"
| "pc_ok Returned fr st =
     (Status st = STATUS_COMPLETED \<and>
      (case cmdProcess fr of
         None \<Rightarrow> ExitCode st = - 1 \<and> PID st = 0 \<and> exitError fr = None
       | Some p \<Rightarrow>
           PID st = p \<and>
           (exitError fr = None \<longrightarrow> ExitCode st = 0 \<and> Error st = [])))"
| "pc_ok Panicked fr st = (Status st = STATUS_RUNNING \<and> cmdProcess fr = None)"

definition job_ok :: "runningJob \<Rightarrow> bool" where
  "job_ok j = pc_ok (pc (runner j)) (runner j) (jobStatus j)"

definition all_ok :: "agent \<Rightarrow> bool" where
  "all_ok s = (\<forall>a<length (objs s). job_ok (objs s ! a))"

section \<open>A run of the agent, for the examples\<close>

text \<open>
  The example of the specification: the whitelist maps \<open>echo-test\<close> to a program
  that prints \<open>hello\<close> and exits with status 0. The job is submitted at time 105;
  its runner resolves the command, gets both pipes, starts the child (pid 4242) and
  marks the job running, and the stdout collector reads the line; then the child
  exits and the runner finalizes at time 107, with the line still in the hands of the
  collector.
\<close>

definition echoRequest :: JobRequest where
  "echoRequest = \<lparr>reqJobName = ''t1'', reqCommandName = ''echo-test'', Arguments = [''hello'']\<rparr>"

definition echoCommands :: "string \<rightharpoonup> string" where
  "echoCommands = [''echo-test'' \<mapsto> ''/bin/echo'']"

definition echoSubmitted :: "event list" where
  "echoSubmitted = [Tick 5, StartJobCalled echoRequest]"

definition echoStarts :: "event list" where
  "echoStarts =
     [RunJobStep 0 NoCall,
      RunJobStep 0 (PipeResult (Inr (''hello'' @ [CHR 0x0A]))),
      RunJobStep 0 (PipeResult (Inr [])),
      RunJobStep 0 (StartResult (Inr 4242)),
      RunJobStep 0 NoCall,
      StdoutRead 0]"

definition echoExits :: "event list" where
  "echoExits = [RunJobStep 0 (WaitResult None), Tick 2, RunJobStep 0 NoCall]"

definition echoStatus :: "string list JobStatus" where
  "echoStatus =
     \<lparr>JobID = 0, JobName = ''t1'', Status = STATUS_NOT_STARTED, CommandName = ''echo-test'',
      PID = 0, StartTime = 105, FinishTime = 0, ExitCode = - 1, Error = [],
      Stdout = [], Stderr = [], Args = [''hello'']\<rparr>"

section \<open>What is taken of the operating system\<close>







section \<open>The status without its output\<close>

text \<open>The status without its two output sequences.\<close>

definition scalars :: "string list JobStatus \<Rightarrow> string list JobStatus" where
  "scalars st = st\<lparr>Stdout := [], Stderr := []\<rparr>"

section \<open>What \<open>StartJob\<close> writes once, and a request outside the whitelist\<close>

text \<open>What \<open>StartJob\<close> takes from the request and the clock, and nothing changes later.\<close>

definition submitted ::
  "string list JobStatus \<Rightarrow> uint64 \<times> string \<times> string \<times> string list \<times> int" where
  "submitted st = (JobID st, JobName st, CommandName st, Args st, StartTime st)"



section \<open>A run with a failed start\<close>

text \<open>
  A run in which the child cannot be started. The whitelist names a program that
  does not exist: the command resolves, both pipes are made, and \<open>cmd.Start()\<close>
  fails.
\<close>

definition brokenCommands :: "string \<rightharpoonup> string" where
  "brokenCommands = [''echo-test'' \<mapsto> ''/no/such/program'']"

definition startFails :: "event list" where
  "startFails =
     [RunJobStep 0 NoCall,
      RunJobStep 0 (PipeResult (Inr [])),
      RunJobStep 0 (PipeResult (Inr [])),
      RunJobStep 0 (StartResult (Inl ''fork/exec /no/such/program: no such file or directory'')),
      RunJobStep 0 NoCall]"

section \<open>Slices and the store of their arrays\<close>

text \<open>
  A Go slice is a header: the address of a backing array, a length and a capacity.
  The store holds the backing arrays by address. \<open>append\<close> writes in place when
  the capacity allows, into the cell just past the length, and otherwise copies the
  elements to a new array, whose capacity the runtime chooses (\<open>grow\<close>, at least
  the new length). The nil slice has length and capacity 0.
\<close>

record slice =
  sarr :: nat
  slen :: nat
  scap :: nat

type_synonym store = "string list list"

definition nilSlice :: slice where
  "nilSlice = \<lparr>sarr = 0, slen = 0, scap = 0\<rparr>"

definition elems :: "store \<Rightarrow> slice \<Rightarrow> string list" where
  "elems h sl = take (slen sl) (h ! sarr sl)"

definition append_slice :: "nat \<Rightarrow> store \<Rightarrow> slice \<Rightarrow> string \<Rightarrow> store \<times> slice" where
  "append_slice grow h sl x =
     (if slen sl < scap sl then
        (h[sarr sl := (h ! sarr sl)[slen sl := x]], sl\<lparr>slen := slen sl + 1\<rparr>)
      else
        (let newcap = max grow (slen sl + 1) in
         (h @ [elems h sl @ x # replicate (newcap - (slen sl + 1)) []],
          \<lparr>sarr = length h, slen = slen sl + 1, scap = newcap\<rparr>)))"

text \<open>
  The writes to a job's status after a snapshot, on the status as the struct holds
  it: the three blocks of \<open>runJob\<close> under \<open>statusM\<close> and the append of line 268
  to either sequence.
\<close>

datatype mutation =
    MarkFailed string
  | SetRunning int
  | Complete int "exit_error option"
  | AppendStdout string nat
  | AppendStderr string nat

definition mutate :: "mutation \<Rightarrow> store \<times> slice JobStatus \<Rightarrow> store \<times> slice JobStatus" where
  "mutate m hs =
     (case hs of
        (h, st) \<Rightarrow>
          (case m of
             MarkFailed msg \<Rightarrow> (h, markFailed msg st)
           | SetRunning p \<Rightarrow> (h, recordPID p (markRunning st))
           | Complete t e \<Rightarrow> (h, finalize t e st)
           | AppendStdout line grow \<Rightarrow>
               (case append_slice grow h (Stdout st) line of (h', sl) \<Rightarrow> (h', st\<lparr>Stdout := sl\<rparr>))
           | AppendStderr line grow \<Rightarrow>
               (case append_slice grow h (Stderr st) line of (h', sl) \<Rightarrow> (h', st\<lparr>Stderr := sl\<rparr>))))"

fun mutations :: "mutation list \<Rightarrow> store \<times> slice JobStatus \<Rightarrow> store \<times> slice JobStatus" where
  "mutations [] hs = hs"
| "mutations (m # ms) hs = mutations ms (mutate m hs)"

text \<open>What a reader of the status sees: each header with the elements it spans.\<close>

definition readStatus :: "store \<Rightarrow> slice JobStatus \<Rightarrow> string list JobStatus" where
  "readStatus h st =
     \<lparr>JobID = JobID st, JobName = JobName st, Status = Status st,
      CommandName = CommandName st, PID = PID st, StartTime = StartTime st,
      FinishTime = FinishTime st, ExitCode = ExitCode st, Error = Error st,
      Stdout = elems h (Stdout st), Stderr = elems h (Stderr st), Args = elems h (Args st)\<rparr>"

text \<open>
  A status is well formed in a store when each of its slices lies in an array of
  the store and no two of them share an array: \<open>StartJob\<close> makes it with nil
  \<open>Stdout\<close> and \<open>Stderr\<close>, and every array that \<open>append\<close> allocates is new.
\<close>

definition slice_ok :: "store \<Rightarrow> slice \<Rightarrow> bool" where
  "slice_ok h sl =
     (slen sl \<le> scap sl \<and> (0 < scap sl \<longrightarrow> sarr sl < length h \<and> length (h ! sarr sl) = scap sl))"

definition apart :: "slice \<Rightarrow> slice \<Rightarrow> bool" where
  "apart a b = (0 < scap a \<and> 0 < scap b \<longrightarrow> sarr a \<noteq> sarr b)"

definition status_ok :: "store \<Rightarrow> slice JobStatus \<Rightarrow> bool" where
  "status_ok h st =
     (slice_ok h (Stdout st) \<and> slice_ok h (Stderr st) \<and> slice_ok h (Args st) \<and>
      apart (Stdout st) (Stderr st) \<and> apart (Stdout st) (Args st) \<and> apart (Stderr st) (Args st))"

text \<open>
  The elements a snapshot's header spans are kept (\<open>kept\<close>), and the cell that the
  next append in place to \<open>c\<close> would write is none of them (\<open>clear\<close>).
\<close>

definition kept :: "store \<Rightarrow> slice \<Rightarrow> store \<Rightarrow> bool" where
  "kept h0 sn h = (elems h sn = elems h0 sn \<and> (0 < slen sn \<longrightarrow> sarr sn < length h))"

definition clear :: "slice \<Rightarrow> slice \<Rightarrow> bool" where
  "clear sn c = (slen c < scap c \<and> sarr c = sarr sn \<longrightarrow> slen sn \<le> slen c)"

definition guarded :: "store \<Rightarrow> slice JobStatus \<Rightarrow> store \<times> slice JobStatus \<Rightarrow> bool" where
  "guarded h0 snap hs =
     (case hs of
        (h, cur) \<Rightarrow>
          status_ok h cur \<and>
          (\<forall>sn\<in>{Stdout snap, Stderr snap, Args snap}.
             kept h0 sn h \<and> clear sn (Stdout cur) \<and> clear sn (Stderr cur)))"

text \<open>
  A status whose stdout has one line in an array of capacity two: the first append
  after the snapshot writes into the array that the snapshot shares, the second
  moves the job's stdout to a new array.
\<close>

definition sharedStore :: store where
  "sharedStore = [[''one'', []]]"

definition sharedStatus :: "slice JobStatus" where
  "sharedStatus =
     \<lparr>JobID = 0, JobName = ''t1'', Status = STATUS_RUNNING, CommandName = ''echo-test'',
      PID = 4242, StartTime = 105, FinishTime = 0, ExitCode = - 1, Error = [],
      Stdout = \<lparr>sarr = 0, slen = 1, scap = 2\<rparr>, Stderr = nilSlice, Args = nilSlice\<rparr>"

definition laterWrites :: "mutation list" where
  "laterWrites =
     [AppendStdout ''two'' 0, AppendStdout ''three'' 4, AppendStderr ''oops'' 1,
      Complete 107 None]"

section \<open>The collector by turns, and the ids of the jobs\<close>

text \<open>
  One turn of the loop of \<open>copyPipeToStringArray\<close> as the goroutine of the
  transition system takes it, a read and then an append.
\<close>

definition collector_turn :: "collector \<times> string list \<Rightarrow> collector \<times> string list" where
  "collector_turn cd = (case cd of (c, dest) \<Rightarrow> collector_append (collector_read c) dest)"

text \<open>
  In the transition system the jobs carry the ids in the order of their creation:
  the object at address \<open>a\<close> has the id \<open>a\<close>, as a 64-bit word.
\<close>

definition ids_ok :: "agent \<Rightarrow> bool" where
  "ids_ok s =
     (nextID s = of_nat (length (objs s)) \<and>
      (\<forall>a<length (objs s). JobID (jobStatus (objs s ! a)) = of_nat a))"

chapter \<open>The properties\<close>

section \<open>Successive calls of the id allocator\<close>

lemmas STATUS_defs = STATUS_NOT_STARTED_def STATUS_RUNNING_def STATUS_COMPLETED_def

lemma allocate_ids: "fst (allocate n s) = map (\<lambda>k. nextID s + of_nat k) [0..<n]"
proof (induction n arbitrary: s)
  case 0
  show ?case by simp
next
  case (Suc n)
  have "fst (allocate (Suc n) s) = nextID s # fst (allocate n (s\<lparr>nextID := nextID s + 1\<rparr>))"
    by (simp add: getNewJobID_def split: prod.splits)
  also have "\<dots> = nextID s # map (\<lambda>k. nextID s + 1 + of_nat k) [0..<n]"
    by (simp add: Suc.IH)
  also have "\<dots> = map (\<lambda>k. nextID s + of_nat k) [0..<Suc n]"
    by (simp add: upt_conv_Cons map_Suc_upt [symmetric] add.assoc del: upt_Suc)
  finally show ?case .
qed

lemma allocate_nextID: "nextID (snd (allocate n s)) = nextID s + of_nat n"
proof (induction n arbitrary: s)
  case 0
  show ?case by simp
next
  case (Suc n)
  have "snd (allocate (Suc n) s) = snd (allocate n (s\<lparr>nextID := nextID s + 1\<rparr>))"
    by (simp add: getNewJobID_def split: prod.splits)
  then show ?case
    by (simp add: Suc.IH add.assoc)
qed

section \<open>C2: the ids the allocator returns\<close>

lemma unat_offset:
  fixes x :: uint64
  assumes "unat x + k < 2 ^ 64"
  shows "unat (x + of_nat k) = unat x + k"
proof -
  have k: "k < 2 ^ 64" using assms by simp
  have u: "unat (of_nat k :: uint64) = k"
    using k by (simp add: unat_of_nat)
  then have "unat x + unat (of_nat k :: uint64) < 2 ^ LENGTH(64)"
    using assms by simp
  then show ?thesis
    using u unat_add_lem [of x "of_nat k"] by simp
qed

text \<open>
  C2, as the code has it. The counter is a \<open>uint64\<close> and \<open>s.nextID++\<close> wraps:
  as long as the counter has not wrapped, that is while fewer than \<open>2 ^ 64\<close> ids
  have been handed out since the counter stood where it stands in \<open>s\<close>, the id a
  call returns is strictly greater than every id returned before it, and so differs
  from each of them.
\<close>

theorem getNewJobID_above_earlier_ids:
  assumes "unat (nextID s) + n < 2 ^ 64"
  shows "\<forall>i\<in>set (fst (allocate n s)). i < fst (getNewJobID (snd (allocate n s)))"
proof
  fix i
  assume "i \<in> set (fst (allocate n s))"
  then obtain k where k: "k < n" and i: "i = nextID s + of_nat k"
    by (auto simp: allocate_ids)
  have "unat (nextID s) + k < 2 ^ 64"
    using assms k by simp
  then have ui: "unat i = unat (nextID s) + k"
    by (simp add: i unat_offset)
  have new: "fst (getNewJobID (snd (allocate n s))) = nextID s + of_nat n"
    by (simp add: getNewJobID_def allocate_nextID)
  have "unat (nextID s + of_nat n) = unat (nextID s) + n"
    using assms by (simp add: unat_offset)
  with ui k new show "i < fst (getNewJobID (snd (allocate n s)))"
    by (simp add: word_less_nat_alt)
qed

theorem getNewJobID_above_earlier_ids_witness:
  "unat (nextID (NewServer Map.empty 0)) + 3 < (2 :: nat) ^ 64 \<and>
   fst (allocate 3 (NewServer Map.empty 0)) = [0, 1, 2] \<and>
   fst (getNewJobID (snd (allocate 3 (NewServer Map.empty 0)))) = 3 \<and>
   (0 :: uint64) < 3 \<and> (1 :: uint64) < 3 \<and> (2 :: uint64) < 3"
proof -
  have h: "unat (nextID (NewServer Map.empty 0)) + 3 < (2 :: nat) ^ 64"
    by (simp add: NewServer_def)
  have ids: "fst (allocate 3 (NewServer Map.empty 0)) = [0, 1, 2]"
    by (simp add: numeral_3_eq_3 getNewJobID_def NewServer_def)
  have new: "fst (getNewJobID (snd (allocate 3 (NewServer Map.empty 0)))) = 3"
    by (simp add: numeral_3_eq_3 getNewJobID_def NewServer_def)
  from getNewJobID_above_earlier_ids [OF h] ids new h show ?thesis
    by simp
qed

text \<open>
  The claim as written fails where the counter wraps: the call that follows
  \<open>2 ^ 64\<close> calls on a new server returns an id that was returned before.
\<close>

theorem getNewJobID_repeats_after_wrap:
  "fst (getNewJobID (snd (allocate (2 ^ 64) (NewServer Map.empty 0))))
     \<in> set (fst (allocate (2 ^ 64) (NewServer Map.empty 0)))"
proof -
  have "fst (getNewJobID (snd (allocate (2 ^ 64) (NewServer Map.empty 0)))) = 0"
    by (simp add: getNewJobID_def allocate_nextID NewServer_def)
  moreover have "(0 :: nat) \<in> set [0..<2 ^ 64]"
    by simp
  then have "nextID (NewServer Map.empty 0) + of_nat 0
      \<in> (\<lambda>k. nextID (NewServer Map.empty 0) + of_nat k) ` set [0..<2 ^ 64]"
    by (rule imageI)
  then have "(0 :: uint64) \<in> set (fst (allocate (2 ^ 64) (NewServer Map.empty 0)))"
    by (simp only: allocate_ids set_map) (simp add: NewServer_def)
  ultimately show ?thesis by simp
qed

section \<open>C9: what the collector appends\<close>

lemma ReadString_line:
  "d \<notin> set body \<Longrightarrow> ReadString d (body @ d # rest) = ((body @ [d], True), rest)"
  by (induction body) auto

lemma ReadString_partial:
  "d \<notin> set tail \<Longrightarrow> ReadString d tail = ((tail, False), [])"
  by (induction tail) auto

lemma copyPipe_tail:
  "newline \<notin> set tail \<Longrightarrow> copyPipeToStringArray tail dest = dest"
  by (simp add: copyPipeToStringArray.simps [of tail] ReadString_partial)

lemma ReadString_terminatedLine:
  assumes "terminatedLine l"
  shows "ReadString newline (l @ rest) = ((l, True), rest)"
proof -
  from assms have l: "l = butlast l @ [newline]" and b: "newline \<notin> set (butlast l)"
    by (auto simp: terminatedLine_def dest: append_butlast_last_id)
  have "ReadString newline (butlast l @ newline # rest) = ((butlast l @ [newline], True), rest)"
    using b by (rule ReadString_line)
  then show ?thesis
    using l by (metis append.assoc append_Cons append_Nil)
qed

lemma copyPipe_line:
  assumes "terminatedLine l"
  shows "copyPipeToStringArray (l @ rest) dest = copyPipeToStringArray rest (dest @ [TrimSpace l])"
  by (simp add: copyPipeToStringArray.simps [of "l @ rest"] ReadString_terminatedLine [OF assms])

text \<open>Every stream is a sequence of complete lines and a rest without delimiter.\<close>

lemma stream_lines_exist:
  "\<exists>ls tail. stream = concat ls @ tail \<and> (\<forall>l\<in>set ls. terminatedLine l) \<and> newline \<notin> set tail"
proof (induction stream)
  case Nil
  have "[] = concat [] @ ([] :: string)" by simp
  then show ?case by (metis empty_iff list.set(1))
next
  case (Cons c cs)
  then obtain ls tail where cs: "cs = concat ls @ tail"
    and ls: "\<forall>l\<in>set ls. terminatedLine l" and tail: "newline \<notin> set tail"
    by blast
  show ?case
  proof (cases "c = newline")
    case True
    have "c # cs = concat ([newline] # ls) @ tail" using True cs by simp
    moreover have "\<forall>l\<in>set ([newline] # ls). terminatedLine l"
      using ls by (simp add: terminatedLine_def)
    ultimately show ?thesis using tail by blast
  next
    case False
    show ?thesis
    proof (cases ls)
      case Nil
      have "c # cs = concat [] @ (c # tail)" using cs Nil by simp
      moreover have "newline \<notin> set (c # tail)" using tail False by auto
      ultimately show ?thesis by (metis empty_iff list.set(1))
    next
      case (Cons l ls')
      have l: "terminatedLine l" using ls Cons by simp
      then have "terminatedLine (c # l)"
        using False by (auto simp: terminatedLine_def)
      then have "\<forall>x\<in>set ((c # l) # ls'). terminatedLine x"
        using ls Cons by simp
      moreover have "c # cs = concat ((c # l) # ls') @ tail" using cs Cons by simp
      ultimately show ?thesis using tail by blast
    qed
  qed
qed

text \<open>
  C9. However the stream is cut into complete lines \<open>ls\<close> and a last part \<open>tail\<close>
  that holds no delimiter, the collector leaves in \<open>*dest\<close> what was there,
  followed by the trimmed complete lines in their order; nothing of \<open>tail\<close> is
  appended.
\<close>

theorem copyPipeToStringArray_lines:
  assumes "\<forall>l\<in>set ls. terminatedLine l" and "newline \<notin> set tail"
  shows "copyPipeToStringArray (concat ls @ tail) dest = dest @ map TrimSpace ls"
  using assms
proof (induction ls arbitrary: dest)
  case Nil
  then show ?case by (simp add: copyPipe_tail)
next
  case (Cons l ls)
  then have "copyPipeToStringArray (concat (l # ls) @ tail) dest =
      copyPipeToStringArray (concat ls @ tail) (dest @ [TrimSpace l])"
    by (simp add: copyPipe_line)
  with Cons show ?case by simp
qed

theorem copyPipeToStringArray_lines_witness:
  "terminatedLine (''a b '' @ [CHR 0x0A]) \<and> terminatedLine (''  cc'' @ [CHR 0x0D, CHR 0x0A]) \<and>
   newline \<notin> set ''tail'' \<and>
   copyPipeToStringArray
     (concat [''a b '' @ [CHR 0x0A], ''  cc'' @ [CHR 0x0D, CHR 0x0A]] @ ''tail'') [''x'']
     = [''x'', ''a b'', ''cc'']"
proof -
  let ?l1 = "''a b '' @ [CHR 0x0A]" and ?l2 = "''  cc'' @ [CHR 0x0D, CHR 0x0A]"
  have a: "terminatedLine ?l1" by code_simp
  have b: "terminatedLine ?l2" by code_simp
  have c: "newline \<notin> set ''tail''" by code_simp
  have d: "\<forall>l\<in>set [?l1, ?l2]. terminatedLine l"
    using a b by simp
  have e: "[''x''] @ map TrimSpace [?l1, ?l2] = [''x'', ''a b'', ''cc'']" by code_simp
  have "copyPipeToStringArray (concat [?l1, ?l2] @ ''tail'') [''x'']
      = [''x''] @ map TrimSpace [?l1, ?l2]"
    by (rule copyPipeToStringArray_lines [OF d c])
  then have "copyPipeToStringArray (concat [?l1, ?l2] @ ''tail'') [''x''] = [''x'', ''a b'', ''cc'']"
    by (simp only: e)
  with a b c show ?thesis by blast
qed

section \<open>What one step does to one job\<close>

lemma StopJob_state: "snd (StopJob jid os s) = s"
  by (simp add: StopJob_def Let_def split: option.splits signal_result.splits)

lemma StartJob_spawn_objs:
  "\<exists>j. objs (StartJob_spawn details s) = objs s @ [j]"
  by (simp add: StartJob_spawn_def getNewJobID_def)

lemma updateJob_nth:
  "a < length (objs s) \<Longrightarrow>
   objs (updateJob b f s) ! a = (if a = b then f (objs s ! a) else objs s ! a)"
  by (simp add: updateJob_def)

lemma updateJob_length: "length (objs (updateJob b f s)) = length (objs s)"
  by (simp add: updateJob_def)

lemma step_length: "length (objs s) \<le> length (objs (step e s))"
  by (cases e)
    (auto simp: step_def updateJob_length StopJob_state StartJob_spawn_def getNewJobID_def
      split: prod.splits)

lemma step_moves:
  assumes "a < length (objs s)"
  shows "jobMoves (runnableCommands s) (now s) (objs s ! a) (objs (step e s) ! a)"
proof (cases "crashed s")
  case True
  then show ?thesis by (simp add: step_def jobMoves.stays)
next
  case False
  show ?thesis
  proof (cases e)
    case (Tick d)
    then show ?thesis using False by (simp add: step_def jobMoves.stays)
  next
    case (StartJobCalled details)
    obtain j where "objs (StartJob_spawn details s) = objs s @ [j]"
      using StartJob_spawn_objs by blast
    then show ?thesis
      using False StartJobCalled assms by (simp add: step_def nth_append jobMoves.stays)
  next
    case (RunJobStep b os)
    show ?thesis
    proof (cases "a = b")
      case True
      obtain j' p where r: "runJob_step (runnableCommands s) (now s) os (objs s ! a) = (j', p)"
        by (metis prod.exhaust)
      then have "objs (step e s) ! a = fst (runJob_step (runnableCommands s) (now s) os (objs s ! a))"
        using False RunJobStep True assms by (simp add: step_def)
      then show ?thesis by (simp add: jobMoves.runs)
    next
      case neq: False
      then have "objs (step e s) ! a = objs s ! a"
        using False RunJobStep assms by (simp add: step_def split: prod.splits)
      then show ?thesis by (simp add: jobMoves.stays)
    qed
  next
    case (StdoutRead b)
    then show ?thesis
      using False assms by (auto simp: step_def updateJob_nth intro: jobMoves.intros)
  next
    case (StdoutAppend b)
    then show ?thesis
      using False assms by (auto simp: step_def updateJob_nth intro: jobMoves.intros)
  next
    case (StderrRead b)
    then show ?thesis
      using False assms by (auto simp: step_def updateJob_nth intro: jobMoves.intros)
  next
    case (StderrAppend b)
    then show ?thesis
      using False assms by (auto simp: step_def updateJob_nth intro: jobMoves.intros)
  next
    case (StopJobCalled jid os)
    then show ?thesis using False by (simp add: step_def StopJob_state jobMoves.stays)
  qed
qed


section \<open>The invariant of a job\<close>

lemma pc_ok_Stdout: "pc_ok p fr (st\<lparr>Stdout := xs\<rparr>) = pc_ok p fr st"
  by (cases p) (simp_all add: notStarted_def started_def cong: option.case_cong)

lemma pc_ok_Stderr: "pc_ok p fr (st\<lparr>Stderr := xs\<rparr>) = pc_ok p fr st"
  by (cases p) (simp_all add: notStarted_def started_def cong: option.case_cong)

lemma runJob_step_ok:
  assumes "job_ok j"
  shows "job_ok (fst (runJob_step c t os j))"
proof (cases "pc (runner j)")
  case AtResolve
  with assms show ?thesis
    by (auto simp: job_ok_def runJob_step_def Let_def markFailed_def notStarted_def STATUS_defs
        split: option.splits)
next
  case AtStdoutPipe
  with assms show ?thesis
    by (auto simp: job_ok_def runJob_step_def Let_def markFailed_def notStarted_def STATUS_defs
        split: os_result.splits sum.splits)
next
  case AtStderrPipe
  with assms show ?thesis
    by (auto simp: job_ok_def runJob_step_def Let_def markFailed_def notStarted_def STATUS_defs
        split: os_result.splits sum.splits)
next
  case AtStart
  with assms show ?thesis
    by (auto simp: job_ok_def runJob_step_def Let_def notStarted_def
        split: os_result.splits sum.splits)
next
  case AtSetRunning
  with assms show ?thesis
    by (auto simp: job_ok_def runJob_step_def Let_def markRunning_def recordPID_def
        notStarted_def started_def STATUS_defs split: option.splits)
next
  case AtWait
  with assms show ?thesis
    by (auto simp: job_ok_def runJob_step_def Let_def started_def split: os_result.splits)
next
  case AtFinalize
  with assms show ?thesis
    by (auto simp: job_ok_def runJob_step_def Let_def finalize_def started_def STATUS_defs
        split: option.splits exit_error.splits)
next
  case Returned
  with assms show ?thesis by (simp add: runJob_step_def)
next
  case Panicked
  with assms show ?thesis by (simp add: runJob_step_def)
qed

lemma appendStdout_ok: "job_ok j \<Longrightarrow> job_ok (appendStdout j)"
  by (simp add: job_ok_def appendStdout_def pc_ok_Stdout split: prod.splits)

lemma appendStderr_ok: "job_ok j \<Longrightarrow> job_ok (appendStderr j)"
  by (simp add: job_ok_def appendStderr_def pc_ok_Stderr split: prod.splits)

lemma jobMoves_ok: "jobMoves c t j j' \<Longrightarrow> job_ok j \<Longrightarrow> job_ok j'"
proof (induction rule: jobMoves.induct)
  case (runs j os)
  then show ?case by (rule runJob_step_ok)
next
  case (stdoutAppends j)
  then show ?case by (rule appendStdout_ok)
next
  case (stderrAppends j)
  then show ?case by (rule appendStderr_ok)
qed (simp_all add: job_ok_def)

lemma step_new_job:
  assumes "length (objs s) \<le> a" and "a < length (objs (step e s))"
  shows "job_ok (objs (step e s) ! a)"
proof (cases e)
  case (StartJobCalled details)
  show ?thesis
  proof (cases "crashed s")
    case True
    with assms show ?thesis by (simp add: step_def)
  next
    case False
    with assms StartJobCalled have "a = length (objs s)"
      by (simp add: step_def StartJob_spawn_def getNewJobID_def)
    with False StartJobCalled show ?thesis
      by (simp add: step_def StartJob_spawn_def getNewJobID_def job_ok_def notStarted_def)
  qed
next
  case (RunJobStep b os)
  with assms show ?thesis
    by (simp add: step_def split: if_splits prod.splits)
qed (use assms in \<open>simp_all add: step_def updateJob_def StopJob_state split: if_splits\<close>)

lemma step_all_ok:
  assumes "all_ok s"
  shows "all_ok (step e s)"
  unfolding all_ok_def
proof (intro allI impI)
  fix a
  assume a: "a < length (objs (step e s))"
  show "job_ok (objs (step e s) ! a)"
  proof (cases "a < length (objs s)")
    case True
    then have "job_ok (objs s ! a)"
      using assms by (simp add: all_ok_def)
    with step_moves [OF True] show ?thesis
      by (rule jobMoves_ok)
  next
    case False
    then show ?thesis
      using a by (simp add: step_new_job)
  qed
qed

lemma exec_append: "exec (xs @ ys) s = exec ys (exec xs s)"
  by (induction xs arbitrary: s) simp_all

lemma exec_all_ok: "all_ok s \<Longrightarrow> all_ok (exec evs s)"
  by (induction evs arbitrary: s) (simp_all add: step_all_ok)

lemma NewServer_all_ok: "all_ok (NewServer commands t0)"
  by (simp add: all_ok_def NewServer_def)

lemma exec_length: "length (objs s) \<le> length (objs (exec evs s))"
proof (induction evs arbitrary: s)
  case Nil
  show ?case by simp
next
  case (Cons e evs)
  have "length (objs s) \<le> length (objs (step e s))" by (rule step_length)
  also have "\<dots> \<le> length (objs (exec evs (step e s)))" by (rule Cons.IH)
  finally show ?case by simp
qed

section \<open>The lifecycle only moves forward\<close>

lemma job_ok_status:
  assumes "job_ok j"
  shows "Status (jobStatus j) \<in> {STATUS_NOT_STARTED, STATUS_RUNNING, STATUS_COMPLETED}"
  using assms by (cases "pc (runner j)") (simp_all add: job_ok_def notStarted_def started_def)

lemma runJob_step_forward:
  assumes "job_ok j"
  shows "Status (jobStatus j) \<le> Status (jobStatus (fst (runJob_step c t os j)))"
proof (cases "pc (runner j)")
  case AtResolve
  with assms show ?thesis
    by (auto simp: job_ok_def runJob_step_def Let_def markFailed_def notStarted_def STATUS_defs
        split: option.splits)
next
  case AtStdoutPipe
  with assms show ?thesis
    by (auto simp: job_ok_def runJob_step_def Let_def markFailed_def notStarted_def STATUS_defs
        split: os_result.splits sum.splits)
next
  case AtStderrPipe
  with assms show ?thesis
    by (auto simp: job_ok_def runJob_step_def Let_def markFailed_def notStarted_def STATUS_defs
        split: os_result.splits sum.splits)
next
  case AtStart
  with assms show ?thesis
    by (auto simp: runJob_step_def Let_def split: os_result.splits sum.splits)
next
  case AtSetRunning
  with assms show ?thesis
    by (auto simp: job_ok_def runJob_step_def Let_def markRunning_def recordPID_def
        notStarted_def STATUS_defs split: option.splits)
next
  case AtWait
  with assms show ?thesis
    by (auto simp: runJob_step_def Let_def split: os_result.splits)
next
  case AtFinalize
  with assms show ?thesis
    by (auto simp: job_ok_def runJob_step_def Let_def finalize_def started_def STATUS_defs
        split: option.splits exit_error.splits)
next
  case Returned
  then show ?thesis by (simp add: runJob_step_def)
next
  case Panicked
  then show ?thesis by (simp add: runJob_step_def)
qed

lemma jobMoves_forward:
  "jobMoves c t j j' \<Longrightarrow> job_ok j \<Longrightarrow> Status (jobStatus j) \<le> Status (jobStatus j')"
proof (induction rule: jobMoves.induct)
  case (runs j os)
  then show ?case by (rule runJob_step_forward)
qed (simp_all add: appendStdout_def appendStderr_def split: prod.splits)

lemma exec_forward:
  assumes "all_ok s" and "a < length (objs s)"
  shows "Status (jobStatus (objs s ! a)) \<le> Status (jobStatus (objs (exec evs s) ! a))"
  using assms
proof (induction evs arbitrary: s)
  case Nil
  show ?case by simp
next
  case (Cons e evs)
  have ok: "job_ok (objs s ! a)"
    using Cons.prems by (simp add: all_ok_def)
  have "Status (jobStatus (objs s ! a)) \<le> Status (jobStatus (objs (step e s) ! a))"
    using step_moves [OF Cons.prems(2)] ok by (rule jobMoves_forward)
  moreover have "a < length (objs (step e s))"
    using Cons.prems(2) step_length [of s e] by simp
  then have "Status (jobStatus (objs (step e s) ! a))
      \<le> Status (jobStatus (objs (exec evs (step e s)) ! a))"
    using Cons.prems(1) by (intro Cons.IH step_all_ok)
  ultimately show ?case by simp
qed

section \<open>The states of the example run\<close>

lemmas step_simps =
  step_def updateJob_def StartJob_spawn_def getNewJobID_def runJob_step_def Let_def
  markFailed_def markRunning_def recordPID_def finalize_def collector_read_def
  collector_append_def appendStdout_def appendStderr_def StopJob_def newline_def

lemma echoSubmitted_state:
  "exec echoSubmitted (NewServer echoCommands 100) =
     \<lparr>allJobs = [0 \<mapsto> 0], runnableCommands = echoCommands, nextID = 1,
      objs = [\<lparr>jobStatus = echoStatus,
               runner = \<lparr>pc = AtResolve, commandToExecute = [], cmdProcess = None,
                         exitError = None\<rparr>,
               stdoutC = NotLaunched, stderrC = NotLaunched\<rparr>],
      now = 105, crashed = False\<rparr>"
  by (simp add: echoSubmitted_def NewServer_def echoRequest_def echoStatus_def step_simps)

lemma echoStarts_state:
  "exec (echoSubmitted @ echoStarts) (NewServer echoCommands 100) =
     \<lparr>allJobs = [0 \<mapsto> 0], runnableCommands = echoCommands, nextID = 1,
      objs = [\<lparr>jobStatus = echoStatus\<lparr>Status := STATUS_RUNNING, PID := 4242\<rparr>,
               runner = \<lparr>pc = AtWait, commandToExecute = ''/bin/echo'', cmdProcess = Some 4242,
                         exitError = None\<rparr>,
               stdoutC = Holding (''hello'' @ [CHR 0x0A]) [], stderrC = Reading []\<rparr>],
      now = 105, crashed = False\<rparr>"
  by (simp add: exec_append echoSubmitted_state)
    (simp add: echoStarts_def echoCommands_def echoStatus_def step_simps)

lemma echoExits_state:
  "exec (echoSubmitted @ echoStarts @ echoExits) (NewServer echoCommands 100) =
     \<lparr>allJobs = [0 \<mapsto> 0], runnableCommands = echoCommands, nextID = 1,
      objs = [\<lparr>jobStatus = echoStatus\<lparr>Status := STATUS_COMPLETED, PID := 4242,
                                        FinishTime := 107, ExitCode := 0\<rparr>,
               runner = \<lparr>pc = Returned, commandToExecute = ''/bin/echo'', cmdProcess = Some 4242,
                         exitError = None\<rparr>,
               stdoutC = Holding (''hello'' @ [CHR 0x0A]) [], stderrC = Reading []\<rparr>],
      now = 107, crashed = False\<rparr>"
  using echoStarts_state
  by (simp add: exec_append [of "echoSubmitted @ echoStarts" echoExits, simplified])
    (simp add: echoExits_def echoStatus_def step_simps)

section \<open>C1: the lifecycle of a job\<close>

text \<open>
  C1. Take any run of the agent from \<open>NewServer\<close> (\<open>evs\<close>), any job \<open>a\<close> that
  exists after it, and any continuation of the run (\<open>later\<close>): the lifecycle state
  of the job is one of the three constants before and after, it is after the
  continuation where it was or further along NotStarted, Running, Completed (the
  constants are 0, 1 and 2), and a job that was Completed is still Completed.
\<close>

theorem lifecycle_only_forward:
  assumes "a < length (objs (exec evs (NewServer commands t0)))"
  shows "Status (jobStatus (objs (exec evs (NewServer commands t0)) ! a))
           \<in> {STATUS_NOT_STARTED, STATUS_RUNNING, STATUS_COMPLETED} \<and>
         Status (jobStatus (objs (exec (evs @ later) (NewServer commands t0)) ! a))
           \<in> {STATUS_NOT_STARTED, STATUS_RUNNING, STATUS_COMPLETED} \<and>
         Status (jobStatus (objs (exec evs (NewServer commands t0)) ! a))
           \<le> Status (jobStatus (objs (exec (evs @ later) (NewServer commands t0)) ! a)) \<and>
         (Status (jobStatus (objs (exec evs (NewServer commands t0)) ! a)) = STATUS_COMPLETED \<longrightarrow>
          Status (jobStatus (objs (exec (evs @ later) (NewServer commands t0)) ! a)) = STATUS_COMPLETED)"
proof -
  let ?s = "exec evs (NewServer commands t0)"
  let ?s' = "exec (evs @ later) (NewServer commands t0)"
  have s': "?s' = exec later ?s" by (rule exec_append)
  have ok: "all_ok ?s" by (intro exec_all_ok NewServer_all_ok)
  then have ok': "all_ok ?s'" unfolding s' by (rule exec_all_ok)
  have a': "a < length (objs ?s')"
    using assms exec_length [of ?s later] unfolding s' by simp
  have 1: "Status (jobStatus (objs ?s ! a)) \<in> {STATUS_NOT_STARTED, STATUS_RUNNING, STATUS_COMPLETED}"
    using ok assms by (intro job_ok_status) (simp add: all_ok_def)
  have 2: "Status (jobStatus (objs ?s' ! a)) \<in> {STATUS_NOT_STARTED, STATUS_RUNNING, STATUS_COMPLETED}"
    using ok' a' by (intro job_ok_status) (simp add: all_ok_def)
  have 3: "Status (jobStatus (objs ?s ! a)) \<le> Status (jobStatus (objs ?s' ! a))"
    unfolding s' using ok assms by (rule exec_forward)
  from 2 3 have 4: "Status (jobStatus (objs ?s ! a)) = STATUS_COMPLETED \<longrightarrow>
      Status (jobStatus (objs ?s' ! a)) = STATUS_COMPLETED"
    by (auto simp: STATUS_defs)
  from 1 2 3 4 show ?thesis by blast
qed

theorem lifecycle_only_forward_witness:
  "0 < length (objs (exec (echoSubmitted @ echoStarts) (NewServer echoCommands 100))) \<and>
   Status (jobStatus (objs (exec (echoSubmitted @ echoStarts) (NewServer echoCommands 100)) ! 0))
     = STATUS_RUNNING \<and>
   Status (jobStatus (objs (exec ((echoSubmitted @ echoStarts) @ echoExits)
      (NewServer echoCommands 100)) ! 0)) = STATUS_COMPLETED \<and>
   Status (jobStatus (objs (exec (echoSubmitted @ echoStarts) (NewServer echoCommands 100)) ! 0))
     \<le> Status (jobStatus (objs (exec ((echoSubmitted @ echoStarts) @ echoExits)
      (NewServer echoCommands 100)) ! 0))"
proof -
  have h: "0 < length (objs (exec (echoSubmitted @ echoStarts) (NewServer echoCommands 100)))"
    by (simp add: echoStarts_state)
  have r: "Status (jobStatus (objs (exec (echoSubmitted @ echoStarts)
      (NewServer echoCommands 100)) ! 0)) = STATUS_RUNNING"
    by (simp add: echoStarts_state)
  have c: "Status (jobStatus (objs (exec ((echoSubmitted @ echoStarts) @ echoExits)
      (NewServer echoCommands 100)) ! 0)) = STATUS_COMPLETED"
    by (simp add: echoExits_state)
  from lifecycle_only_forward [OF h, of echoExits] h r c show ?thesis
    by blast
qed

section \<open>C4: a job whose process exits with status 0\<close>


















section \<open>C7: output that arrives after Completed\<close>

lemma runJob_step_sequences:
  "Stdout (jobStatus (fst (runJob_step c t os j))) = Stdout (jobStatus j) \<and>
   Stderr (jobStatus (fst (runJob_step c t os j))) = Stderr (jobStatus j)"
  by (cases "pc (runner j)")
    (auto simp: runJob_step_def Let_def markFailed_def markRunning_def recordPID_def finalize_def
      split: option.splits os_result.splits sum.splits exit_error.splits)

lemma jobMoves_prefix:
  assumes "jobMoves c t j j'"
  shows "prefix (Stdout (jobStatus j)) (Stdout (jobStatus j')) \<and>
         prefix (Stderr (jobStatus j)) (Stderr (jobStatus j'))"
  using assms
proof (induction rule: jobMoves.induct)
  case (runs j os)
  show ?case by (simp add: runJob_step_sequences)
next
  case (stdoutAppends j)
  show ?case
    by (cases "stdoutC j") (simp_all add: appendStdout_def collector_append_def)
next
  case (stderrAppends j)
  show ?case
    by (cases "stderrC j") (simp_all add: appendStderr_def collector_append_def)
qed simp_all

lemma completed_has_returned:
  assumes "job_ok j" and "Status (jobStatus j) = STATUS_COMPLETED"
  shows "pc (runner j) = Returned"
  using assms
  by (cases "pc (runner j)") (simp_all add: job_ok_def notStarted_def started_def STATUS_defs)

lemma jobMoves_completed:
  assumes "jobMoves c t j j'" and "job_ok j" and "Status (jobStatus j) = STATUS_COMPLETED"
  shows "scalars (jobStatus j') = scalars (jobStatus j)"
  using assms
proof (induction rule: jobMoves.induct)
  case (runs j os)
  then have "pc (runner j) = Returned" by (intro completed_has_returned)
  then show ?case by (simp add: runJob_step_def)
next
  case (stdoutAppends j)
  show ?case
    by (cases "stdoutC j") (simp_all add: appendStdout_def collector_append_def scalars_def)
next
  case (stderrAppends j)
  show ?case
    by (cases "stderrC j") (simp_all add: appendStderr_def collector_append_def scalars_def)
qed simp_all

lemma exec_prefix:
  assumes "a < length (objs s)"
  shows "prefix (Stdout (jobStatus (objs s ! a))) (Stdout (jobStatus (objs (exec evs s) ! a))) \<and>
         prefix (Stderr (jobStatus (objs s ! a))) (Stderr (jobStatus (objs (exec evs s) ! a)))"
  using assms
proof (induction evs arbitrary: s)
  case Nil
  show ?case by simp
next
  case (Cons e evs)
  have 1: "prefix (Stdout (jobStatus (objs s ! a))) (Stdout (jobStatus (objs (step e s) ! a))) \<and>
      prefix (Stderr (jobStatus (objs s ! a))) (Stderr (jobStatus (objs (step e s) ! a)))"
    using step_moves [OF Cons.prems] by (rule jobMoves_prefix)
  have "a < length (objs (step e s))"
    using Cons.prems step_length [of s e] by simp
  then have 2: "prefix (Stdout (jobStatus (objs (step e s) ! a)))
        (Stdout (jobStatus (objs (exec evs (step e s)) ! a))) \<and>
      prefix (Stderr (jobStatus (objs (step e s) ! a)))
        (Stderr (jobStatus (objs (exec evs (step e s)) ! a)))"
    by (rule Cons.IH)
  from 1 2 show ?case
    by (auto intro: prefix_order.trans)
qed

lemma scalars_Status: "Status (scalars st) = Status st"
  by (simp add: scalars_def)

lemma exec_completed:
  assumes "all_ok s" and "a < length (objs s)"
    and "Status (jobStatus (objs s ! a)) = STATUS_COMPLETED"
  shows "scalars (jobStatus (objs (exec evs s) ! a)) = scalars (jobStatus (objs s ! a))"
  using assms
proof (induction evs arbitrary: s)
  case Nil
  show ?case by simp
next
  case (Cons e evs)
  have ok: "job_ok (objs s ! a)"
    using Cons.prems by (simp add: all_ok_def)
  have 1: "scalars (jobStatus (objs (step e s) ! a)) = scalars (jobStatus (objs s ! a))"
    using step_moves [OF Cons.prems(2)] ok Cons.prems(3) by (rule jobMoves_completed)
  then have "Status (jobStatus (objs (step e s) ! a)) = STATUS_COMPLETED"
    using Cons.prems(3) scalars_Status by metis
  moreover have "a < length (objs (step e s))"
    using Cons.prems(2) step_length [of s e] by simp
  moreover have "all_ok (step e s)"
    using Cons.prems(1) by (rule step_all_ok)
  ultimately have "scalars (jobStatus (objs (exec evs (step e s)) ! a))
      = scalars (jobStatus (objs (step e s) ! a))"
    by (intro Cons.IH)
  with 1 show ?case by simp
qed

text \<open>
  C7, as the code has it. \<open>runJob\<close> waits for the child (line 338) and for nothing
  else: it does not join the two collectors. So lines may still be appended to the
  stdout and stderr of a job after it is Completed, but the sequences only grow at
  their end (what a reader saw is a prefix of what any later reader sees, at any
  time), and once the job is Completed no other field of its status changes.
\<close>

theorem outputs_only_grow:
  assumes "a < length (objs (exec evs (NewServer commands t0)))"
  shows "prefix (Stdout (jobStatus (objs (exec evs (NewServer commands t0)) ! a)))
           (Stdout (jobStatus (objs (exec (evs @ later) (NewServer commands t0)) ! a))) \<and>
         prefix (Stderr (jobStatus (objs (exec evs (NewServer commands t0)) ! a)))
           (Stderr (jobStatus (objs (exec (evs @ later) (NewServer commands t0)) ! a))) \<and>
         (Status (jobStatus (objs (exec evs (NewServer commands t0)) ! a)) = STATUS_COMPLETED \<longrightarrow>
          scalars (jobStatus (objs (exec (evs @ later) (NewServer commands t0)) ! a))
            = scalars (jobStatus (objs (exec evs (NewServer commands t0)) ! a)))"
proof -
  let ?s = "exec evs (NewServer commands t0)"
  have s': "exec (evs @ later) (NewServer commands t0) = exec later ?s"
    by (rule exec_append)
  have ok: "all_ok ?s" by (intro exec_all_ok NewServer_all_ok)
  show ?thesis
    unfolding s' using exec_prefix [OF assms, of later] exec_completed [OF ok assms, of later]
    by blast
qed

lemma TrimSpace_hello: "TrimSpace (''hello'' @ [CHR 0x0A]) = ''hello''"
  by code_simp

lemma echoAppended_state:
  "exec ((echoSubmitted @ echoStarts @ echoExits) @ [StdoutAppend 0]) (NewServer echoCommands 100) =
     \<lparr>allJobs = [0 \<mapsto> 0], runnableCommands = echoCommands, nextID = 1,
      objs = [\<lparr>jobStatus = echoStatus\<lparr>Status := STATUS_COMPLETED, PID := 4242,
                                        FinishTime := 107, ExitCode := 0, Stdout := [''hello'']\<rparr>,
               runner = \<lparr>pc = Returned, commandToExecute = ''/bin/echo'', cmdProcess = Some 4242,
                         exitError = None\<rparr>,
               stdoutC = Reading [], stderrC = Reading []\<rparr>],
      now = 107, crashed = False\<rparr>"
  by (simp only: exec_append [of "echoSubmitted @ echoStarts @ echoExits"] echoExits_state)
    (simp add: echoStatus_def step_simps TrimSpace_hello [simplified])

text \<open>
  The claim as written fails: in the run of the example the job is Completed with
  an empty stdout, and the next step of the stdout collector appends the line.
\<close>

theorem stdout_appended_after_completed:
  "Status (jobStatus (objs (exec (echoSubmitted @ echoStarts @ echoExits)
      (NewServer echoCommands 100)) ! 0)) = STATUS_COMPLETED \<and>
   Stdout (jobStatus (objs (exec (echoSubmitted @ echoStarts @ echoExits)
      (NewServer echoCommands 100)) ! 0)) = [] \<and>
   Stdout (jobStatus (objs (exec ((echoSubmitted @ echoStarts @ echoExits) @ [StdoutAppend 0])
      (NewServer echoCommands 100)) ! 0)) = [''hello'']"
proof -
  have 1: "Status (jobStatus (objs (exec (echoSubmitted @ echoStarts @ echoExits)
      (NewServer echoCommands 100)) ! 0)) = STATUS_COMPLETED"
    by (simp add: echoExits_state)
  have 2: "Stdout (jobStatus (objs (exec (echoSubmitted @ echoStarts @ echoExits)
      (NewServer echoCommands 100)) ! 0)) = []"
    by (simp add: echoExits_state echoStatus_def)
  have 3: "Stdout (jobStatus (objs (exec ((echoSubmitted @ echoStarts @ echoExits) @ [StdoutAppend 0])
      (NewServer echoCommands 100)) ! 0)) = [''hello'']"
    by (simp only: echoAppended_state) (simp add: echoStatus_def)
  from 1 2 3 show ?thesis by blast
qed

theorem outputs_only_grow_witness:
  "0 < length (objs (exec (echoSubmitted @ echoStarts @ echoExits) (NewServer echoCommands 100))) \<and>
   Status (jobStatus (objs (exec (echoSubmitted @ echoStarts @ echoExits)
      (NewServer echoCommands 100)) ! 0)) = STATUS_COMPLETED \<and>
   prefix (Stdout (jobStatus (objs (exec (echoSubmitted @ echoStarts @ echoExits)
      (NewServer echoCommands 100)) ! 0)))
     (Stdout (jobStatus (objs (exec ((echoSubmitted @ echoStarts @ echoExits) @ [StdoutAppend 0])
      (NewServer echoCommands 100)) ! 0))) \<and>
   scalars (jobStatus (objs (exec ((echoSubmitted @ echoStarts @ echoExits) @ [StdoutAppend 0])
      (NewServer echoCommands 100)) ! 0))
     = scalars (jobStatus (objs (exec (echoSubmitted @ echoStarts @ echoExits)
      (NewServer echoCommands 100)) ! 0))"
proof -
  have h: "0 < length (objs (exec (echoSubmitted @ echoStarts @ echoExits)
      (NewServer echoCommands 100)))"
    by (simp add: echoExits_state)
  have c: "Status (jobStatus (objs (exec (echoSubmitted @ echoStarts @ echoExits)
      (NewServer echoCommands 100)) ! 0)) = STATUS_COMPLETED"
    by (simp add: echoExits_state)
  from outputs_only_grow [OF h, of "[StdoutAppend 0]"] h c show ?thesis
    by blast
qed

section \<open>C10: \<open>StartJob\<close> returns a status\<close>

lemma runJob_step_submitted:
  "submitted (jobStatus (fst (runJob_step c t os j))) = submitted (jobStatus j)"
  by (cases "pc (runner j)")
    (auto simp: runJob_step_def Let_def markFailed_def markRunning_def recordPID_def finalize_def
      submitted_def split: option.splits os_result.splits sum.splits exit_error.splits)

lemma jobMoves_submitted:
  assumes "jobMoves c t j j'"
  shows "submitted (jobStatus j') = submitted (jobStatus j)"
  using assms
proof (induction rule: jobMoves.induct)
  case (runs j os)
  show ?case by (rule runJob_step_submitted)
next
  case (stdoutAppends j)
  show ?case
    by (cases "stdoutC j") (simp_all add: appendStdout_def collector_append_def submitted_def)
next
  case (stderrAppends j)
  show ?case
    by (cases "stderrC j") (simp_all add: appendStderr_def collector_append_def submitted_def)
qed simp_all


lemma exec_crashed: "crashed s \<Longrightarrow> exec evs s = s"
  by (induction evs) (simp_all add: step_def)

lemma CopyStatus_eq: "CopyStatus st = st"
  by (simp add: CopyStatus_def)

lemma StartJob_spawn_new:
  "objs (StartJob_spawn details s) ! length (objs s) =
     \<lparr>jobStatus =
        \<lparr>JobID = nextID s, JobName = reqJobName details, Status = STATUS_NOT_STARTED,
         CommandName = reqCommandName details, PID = 0, StartTime = now s,
         FinishTime = 0, ExitCode = - 1, Error = [],
         Stdout = [], Stderr = [], Args = Arguments details\<rparr>,
      runner = \<lparr>pc = AtResolve, commandToExecute = [], cmdProcess = None, exitError = None\<rparr>,
      stdoutC = NotLaunched, stderrC = NotLaunched\<rparr>"
  by (simp add: StartJob_spawn_def getNewJobID_def)

lemma StartJob_spawn_rest:
  "length (objs (StartJob_spawn details s)) = Suc (length (objs s)) \<and>
   allJobs (StartJob_spawn details s) (nextID s) = Some (length (objs s)) \<and>
   runnableCommands (StartJob_spawn details s) = runnableCommands s \<and>
   now (StartJob_spawn details s) = now s \<and>
   crashed (StartJob_spawn details s) = crashed s"
  by (simp add: StartJob_spawn_def getNewJobID_def)







section \<open>C8: the errors of \<open>StopJob\<close>\<close>

text \<open>
  C8. \<open>StopJob\<close> on an id that \<open>allJobs\<close> does not hold returns the error of line
  203; on a job whose state is not Running it returns the error of line 207; and
  whatever it returns, an error or a status, it leaves the whole state of the agent,
  with every job's status, as it was.
\<close>

theorem StopJob_error_cases:
  "(allJobs s jid = None \<longrightarrow> fst (StopJob jid os s) = Inl (JobNotFound jid)) \<and>
   (\<forall>a. allJobs s jid = Some a \<and> Status (jobStatus (objs s ! a)) \<noteq> STATUS_RUNNING \<longrightarrow>
        fst (StopJob jid os s) = Inl (JobNotRunning jid)) \<and>
   snd (StopJob jid os s) = s"
  by (auto simp: StopJob_def Let_def split: option.splits signal_result.splits)

theorem StopJob_error_cases_witness:
  "allJobs (exec echoSubmitted (NewServer echoCommands 100)) 7 = None \<and>
   fst (StopJob 7 Signalled (exec echoSubmitted (NewServer echoCommands 100)))
     = Inl (JobNotFound 7) \<and>
   allJobs (exec echoSubmitted (NewServer echoCommands 100)) 0 = Some 0 \<and>
   Status (jobStatus (objs (exec echoSubmitted (NewServer echoCommands 100)) ! 0))
     = STATUS_NOT_STARTED \<and>
   fst (StopJob 0 Signalled (exec echoSubmitted (NewServer echoCommands 100)))
     = Inl (JobNotRunning 0) \<and>
   snd (StopJob 0 Signalled (exec echoSubmitted (NewServer echoCommands 100)))
     = exec echoSubmitted (NewServer echoCommands 100) \<and>
   allJobs (exec (echoSubmitted @ echoStarts @ echoExits) (NewServer echoCommands 100)) 0 = Some 0 \<and>
   Status (jobStatus (objs (exec (echoSubmitted @ echoStarts @ echoExits)
       (NewServer echoCommands 100)) ! 0)) = STATUS_COMPLETED \<and>
   fst (StopJob 0 Signalled (exec (echoSubmitted @ echoStarts @ echoExits)
       (NewServer echoCommands 100))) = Inl (JobNotRunning 0) \<and>
   snd (StopJob 0 Signalled (exec (echoSubmitted @ echoStarts @ echoExits)
       (NewServer echoCommands 100)))
     = exec (echoSubmitted @ echoStarts @ echoExits) (NewServer echoCommands 100)"
proof -
  let ?s = "exec echoSubmitted (NewServer echoCommands 100)"
  let ?d = "exec (echoSubmitted @ echoStarts @ echoExits) (NewServer echoCommands 100)"
  have a: "allJobs ?s 7 = None"
    by (simp add: echoSubmitted_state)
  have b: "allJobs ?s 0 = Some 0" "Status (jobStatus (objs ?s ! 0)) = STATUS_NOT_STARTED"
    by (simp_all add: echoSubmitted_state echoStatus_def)
  have c: "allJobs ?d 0 = Some 0" "Status (jobStatus (objs ?d ! 0)) = STATUS_COMPLETED"
    by (simp_all add: echoExits_state)
  have n: "STATUS_NOT_STARTED \<noteq> STATUS_RUNNING" "STATUS_COMPLETED \<noteq> STATUS_RUNNING"
    by (simp_all add: STATUS_defs)
  from StopJob_error_cases [of ?s 7 Signalled] StopJob_error_cases [of ?s 0 Signalled]
    StopJob_error_cases [of ?d 0 Signalled] a b c n
  show ?thesis by metis
qed

section \<open>C5: \<open>GetJobs\<close>\<close>

text \<open>
  C5 is not what the code does. With one job registered, started at time 105, the
  ids of the jobs started after time 0 are asked for: \<open>GetJobs\<close> sends none and
  returns nil, though the job's id is among those the claim names.
\<close>

theorem GetJobs_sends_nothing:
  "GetJobs 0 (exec echoSubmitted (NewServer echoCommands 100)) = (None, []) \<and>
   0 \<in> jobsStartedAfter (exec echoSubmitted (NewServer echoCommands 100)) 0"
  by (simp add: GetJobs_def jobsStartedAfter_def echoSubmitted_state echoStatus_def)

section \<open>C3: failures before the child runs\<close>

text \<open>
  The two kinds of failure that \<open>runJob\<close> handles: the command name is not in the
  whitelist, or a pipe cannot be made. The job goes from NotStarted to Completed in
  that one step, with the message, and nothing else of its status is written.
\<close>

lemma unresolvable_command_completes:
  assumes "pc (runner j) = AtResolve" and "commands (CommandName (jobStatus j)) = None"
  shows "runJob_step commands t os j =
    (j\<lparr>jobStatus := (jobStatus j)\<lparr>Status := STATUS_COMPLETED,
           Error := ''Unable to find job for '' @ CommandName (jobStatus j)\<rparr>,
        runner := (runner j)\<lparr>pc := Returned\<rparr>\<rparr>, False)"
  using assms by (simp add: runJob_step_def Let_def markFailed_def)

lemma pipe_failure_completes:
  assumes "pc (runner j) = AtStdoutPipe \<or> pc (runner j) = AtStderrPipe"
  shows "runJob_step commands t (PipeResult (Inl err)) j =
    (j\<lparr>jobStatus := (jobStatus j)\<lparr>Status := STATUS_COMPLETED, Error := err\<rparr>,
        runner := (runner j)\<lparr>pc := Returned\<rparr>\<rparr>, False)"
  using assms by (auto simp: runJob_step_def Let_def markFailed_def)

lemma startFails_state:
  "exec (echoSubmitted @ startFails) (NewServer brokenCommands 100) =
     \<lparr>allJobs = [0 \<mapsto> 0], runnableCommands = brokenCommands, nextID = 1,
      objs = [\<lparr>jobStatus = echoStatus\<lparr>Status := STATUS_RUNNING\<rparr>,
               runner = \<lparr>pc = Panicked, commandToExecute = ''/no/such/program'',
                         cmdProcess = None, exitError = None\<rparr>,
               stdoutC = Reading [], stderrC = Reading []\<rparr>],
      now = 105, crashed = True\<rparr>"
  by (simp add: echoSubmitted_def startFails_def NewServer_def echoRequest_def echoStatus_def
      brokenCommands_def step_simps)

text \<open>
  C3 is not what the code does for a failed start: the job is marked Running by
  line 327, line 330 panics on the nil \<open>cmd.Process\<close>, and the process ends with
  the job Running and without an error message; no later event changes that.
\<close>

theorem failed_start_marks_running_and_panics:
  "Status (jobStatus (objs (exec (echoSubmitted @ startFails) (NewServer brokenCommands 100)) ! 0))
     = STATUS_RUNNING \<and>
   Error (jobStatus (objs (exec (echoSubmitted @ startFails) (NewServer brokenCommands 100)) ! 0))
     = [] \<and>
   pc (runner (objs (exec (echoSubmitted @ startFails) (NewServer brokenCommands 100)) ! 0))
     = Panicked \<and>
   crashed (exec (echoSubmitted @ startFails) (NewServer brokenCommands 100)) \<and>
   (\<forall>later. exec ((echoSubmitted @ startFails) @ later) (NewServer brokenCommands 100)
      = exec (echoSubmitted @ startFails) (NewServer brokenCommands 100))"
proof -
  let ?s = "exec (echoSubmitted @ startFails) (NewServer brokenCommands 100)"
  have c: "crashed ?s" by (simp add: startFails_state)
  have "\<forall>later. exec ((echoSubmitted @ startFails) @ later) (NewServer brokenCommands 100) = ?s"
    using c by (simp only: exec_append [of "echoSubmitted @ startFails"] exec_crashed) simp
  moreover have "Status (jobStatus (objs ?s ! 0)) = STATUS_RUNNING"
    "Error (jobStatus (objs ?s ! 0)) = []" "pc (runner (objs ?s ! 0)) = Panicked"
    by (simp_all add: startFails_state echoStatus_def)
  ultimately show ?thesis using c by blast
qed

section \<open>C6: the snapshot and the slices it shares\<close>

lemma append_slice_kept:
  assumes "slice_ok h c" and "kept h0 sn h" and "clear sn c"
  shows "kept h0 sn (fst (append_slice grow h c x)) \<and> clear sn (snd (append_slice grow h c x))"
proof (cases "slen c < scap c")
  case True
  then have c: "sarr c < length h" using assms(1) by (simp add: slice_ok_def)
  have "take (slen sn) (h[sarr c := (h ! sarr c)[slen c := x]] ! sarr sn) = take (slen sn) (h ! sarr sn)"
  proof (cases "sarr sn = sarr c")
    case True
    then have "slen sn \<le> slen c" using assms(3) \<open>slen c < scap c\<close> by (simp add: clear_def)
    then show ?thesis using True c by simp
  next
    case False
    then show ?thesis by simp
  qed
  with True assms(2,3) show ?thesis
    by (auto simp: append_slice_def kept_def elems_def clear_def)
next
  case False
  have "elems (h @ [ys]) sn = elems h sn" for ys
  proof (cases "0 < slen sn")
    case True
    then have "sarr sn < length h" using assms(2) by (simp add: kept_def)
    then show ?thesis by (simp add: elems_def nth_append)
  next
    case False
    then show ?thesis by (simp add: elems_def)
  qed
  with False assms(2) show ?thesis
    by (auto simp: append_slice_def kept_def clear_def Let_def)
qed

lemma append_slice_ok:
  assumes "slice_ok h c"
  shows "slice_ok (fst (append_slice grow h c x)) (snd (append_slice grow h c x))"
  using assms
  by (auto simp: append_slice_def slice_ok_def Let_def elems_def nth_append min_def)

lemma append_slice_other:
  assumes "slice_ok h c" and "slice_ok h d" and "apart c d"
  shows "slice_ok (fst (append_slice grow h c x)) d \<and> apart (snd (append_slice grow h c x)) d"
proof (cases "slen c < scap c")
  case True
  with assms show ?thesis
    by (auto simp: append_slice_def slice_ok_def apart_def)
next
  case False
  with assms show ?thesis
    by (auto simp: append_slice_def slice_ok_def apart_def Let_def nth_append)
qed

lemma apart_sym: "apart a b = apart b a"
  by (auto simp: apart_def)

lemma kept_refl: "slice_ok h sn \<Longrightarrow> kept h sn h"
  by (auto simp: kept_def slice_ok_def)

lemma clear_refl: "clear c c"
  by (simp add: clear_def)

lemma clear_apart: "apart c sn \<Longrightarrow> slice_ok h sn \<Longrightarrow> clear sn c"
  by (auto simp: clear_def apart_def slice_ok_def)

lemma guarded_initial:
  assumes "status_ok h st"
  shows "guarded h st (h, st)"
proof -
  have ok: "slice_ok h (Stdout st)" "slice_ok h (Stderr st)" "slice_ok h (Args st)"
    and ap: "apart (Stdout st) (Stderr st)" "apart (Stdout st) (Args st)"
      "apart (Stderr st) (Args st)" "apart (Stderr st) (Stdout st)"
    using assms by (simp_all add: status_ok_def apart_sym)
  have "kept h (Stdout st) h" "kept h (Stderr st) h" "kept h (Args st) h"
    using ok by (simp_all add: kept_refl)
  moreover have "clear (Stdout st) (Stdout st)" "clear (Stderr st) (Stderr st)"
    by (rule clear_refl)+
  moreover have "clear (Stderr st) (Stdout st)" "clear (Args st) (Stdout st)"
    "clear (Args st) (Stderr st)" "clear (Stdout st) (Stderr st)"
    using ok ap by (blast intro: clear_apart)+
  ultimately show ?thesis
    using assms by (simp add: guarded_def)
qed

lemma guarded_read:
  assumes "guarded h0 snap (h, cur)"
  shows "readStatus h snap = readStatus h0 snap"
  using assms by (simp add: guarded_def kept_def readStatus_def)

lemma guarded_scalars:
  assumes "guarded h0 snap (h, cur)"
    and "Stdout cur' = Stdout cur" and "Stderr cur' = Stderr cur" and "Args cur' = Args cur"
  shows "guarded h0 snap (h, cur')"
  using assms by (simp add: guarded_def status_ok_def)

lemma guarded_AppendStdout:
  assumes g: "guarded h0 snap (h, cur)"
  shows "guarded h0 snap (mutate (AppendStdout line grow) (h, cur))"
proof -
  let ?h = "fst (append_slice grow h (Stdout cur) line)"
  let ?c = "snd (append_slice grow h (Stdout cur) line)"
  have m: "mutate (AppendStdout line grow) (h, cur) = (?h, cur\<lparr>Stdout := ?c\<rparr>)"
    by (simp add: mutate_def split: prod.splits)
  have ok: "slice_ok h (Stdout cur)" "slice_ok h (Stderr cur)" "slice_ok h (Args cur)"
    "apart (Stdout cur) (Stderr cur)" "apart (Stdout cur) (Args cur)" "apart (Stderr cur) (Args cur)"
    using g by (simp_all add: guarded_def status_ok_def)
  have 1: "slice_ok ?h ?c" using ok(1) by (rule append_slice_ok)
  have 2: "slice_ok ?h (Stderr cur) \<and> apart ?c (Stderr cur)"
    using ok(1,2,4) by (rule append_slice_other)
  have 3: "slice_ok ?h (Args cur) \<and> apart ?c (Args cur)"
    using ok(1,3,5) by (rule append_slice_other)
  have st: "status_ok ?h (cur\<lparr>Stdout := ?c\<rparr>)"
    using 1 2 3 ok(6) by (simp add: status_ok_def)
  have "kept h0 sn ?h \<and> clear sn ?c \<and> clear sn (Stderr cur)"
    if "sn \<in> {Stdout snap, Stderr snap, Args snap}" for sn
  proof -
    have k: "kept h0 sn h" "clear sn (Stdout cur)" "clear sn (Stderr cur)"
      using g that by (auto simp: guarded_def)
    from append_slice_kept [OF ok(1) k(1,2)] k(3) show ?thesis by simp
  qed
  with st show ?thesis unfolding m by (simp add: guarded_def)
qed

lemma guarded_AppendStderr:
  assumes g: "guarded h0 snap (h, cur)"
  shows "guarded h0 snap (mutate (AppendStderr line grow) (h, cur))"
proof -
  let ?h = "fst (append_slice grow h (Stderr cur) line)"
  let ?c = "snd (append_slice grow h (Stderr cur) line)"
  have m: "mutate (AppendStderr line grow) (h, cur) = (?h, cur\<lparr>Stderr := ?c\<rparr>)"
    by (simp add: mutate_def split: prod.splits)
  have ok: "slice_ok h (Stdout cur)" "slice_ok h (Stderr cur)" "slice_ok h (Args cur)"
    "apart (Stderr cur) (Stdout cur)" "apart (Stdout cur) (Args cur)" "apart (Stderr cur) (Args cur)"
    using g by (simp_all add: guarded_def status_ok_def apart_sym)
  have 1: "slice_ok ?h ?c" using ok(2) by (rule append_slice_ok)
  have 2: "slice_ok ?h (Stdout cur) \<and> apart ?c (Stdout cur)"
    using ok(2,1,4) by (rule append_slice_other)
  have 3: "slice_ok ?h (Args cur) \<and> apart ?c (Args cur)"
    using ok(2,3,6) by (rule append_slice_other)
  have st: "status_ok ?h (cur\<lparr>Stderr := ?c\<rparr>)"
    using 1 2 3 ok(5) by (simp add: status_ok_def apart_sym)
  have "kept h0 sn ?h \<and> clear sn (Stdout cur) \<and> clear sn ?c"
    if "sn \<in> {Stdout snap, Stderr snap, Args snap}" for sn
  proof -
    have k: "kept h0 sn h" "clear sn (Stdout cur)" "clear sn (Stderr cur)"
      using g that by (auto simp: guarded_def)
    from append_slice_kept [OF ok(2) k(1,3)] k(2) show ?thesis by simp
  qed
  with st show ?thesis unfolding m by (simp add: guarded_def)
qed

lemma guarded_mutate:
  assumes "guarded h0 snap hs"
  shows "guarded h0 snap (mutate m hs)"
proof -
  obtain h cur where hs: "hs = (h, cur)" by (metis surj_pair)
  have g: "guarded h0 snap (h, cur)" using assms hs by simp
  show ?thesis
  proof (cases m)
    case (MarkFailed msg)
    from g have "guarded h0 snap (h, markFailed msg cur)"
      by (rule guarded_scalars) (simp_all add: markFailed_def)
    then show ?thesis using hs MarkFailed by (simp add: mutate_def)
  next
    case (SetRunning p)
    from g have "guarded h0 snap (h, recordPID p (markRunning cur))"
      by (rule guarded_scalars) (simp_all add: recordPID_def markRunning_def)
    then show ?thesis using hs SetRunning by (simp add: mutate_def)
  next
    case (Complete t e)
    from g have "guarded h0 snap (h, finalize t e cur)"
      by (rule guarded_scalars)
        (simp_all add: finalize_def Let_def split: option.splits exit_error.splits)
    then show ?thesis using hs Complete by (simp add: mutate_def)
  next
    case (AppendStdout line grow)
    then show ?thesis using g hs guarded_AppendStdout by simp
  next
    case (AppendStderr line grow)
    then show ?thesis using g hs guarded_AppendStderr by simp
  qed
qed

lemma guarded_mutations: "guarded h0 snap hs \<Longrightarrow> guarded h0 snap (mutations ms hs)"
  by (induction ms arbitrary: hs) (simp_all add: guarded_mutate)

text \<open>
  The lists of the model of the server are what the slices mean: an append to the
  header is an append to the list a reader sees, and nothing else of the status
  moves.
\<close>

lemma append_slice_elems:
  assumes "slice_ok h c"
  shows "elems (fst (append_slice grow h c x)) (snd (append_slice grow h c x)) = elems h c @ [x]"
proof (cases "slen c < scap c")
  case True
  then have "slen c < length (h ! sarr c)" "sarr c < length h"
    using assms by (simp_all add: slice_ok_def)
  then show ?thesis
    using True by (simp add: append_slice_def elems_def take_Suc_conv_app_nth)
next
  case False
  then have "slen c = scap c" using assms by (simp add: slice_ok_def)
  then have "length (elems h c) = slen c \<or> scap c = 0"
    using assms by (auto simp: slice_ok_def elems_def)
  then have "length (elems h c) = slen c"
    using \<open>slen c = scap c\<close> by (auto simp: elems_def)
  then show ?thesis
    using False by (simp add: append_slice_def Let_def elems_def [of "h @ _"])
qed

text \<open>
  The hypothesis of the theorem below is met by every status the code makes: by the
  status \<open>StartJob\<close> builds, whose \<open>Stdout\<close> and \<open>Stderr\<close> are nil, and by
  what any writes make of a well-formed status.
\<close>

lemma new_status_ok:
  assumes "slice_ok h args"
  shows "status_ok h
    \<lparr>JobID = i, JobName = n, Status = STATUS_NOT_STARTED, CommandName = c, PID = 0,
     StartTime = t, FinishTime = 0, ExitCode = - 1, Error = [],
     Stdout = nilSlice, Stderr = nilSlice, Args = args\<rparr>"
  using assms by (simp add: status_ok_def slice_ok_def apart_def nilSlice_def)

lemma mutations_status_ok:
  assumes "status_ok h st"
  shows "status_ok (fst (mutations ms (h, st))) (snd (mutations ms (h, st)))"
proof -
  have "guarded h st (h, st)" using assms by (rule guarded_initial)
  then have "guarded h st (mutations ms (h, st))" by (rule guarded_mutations)
  then show ?thesis by (simp add: guarded_def split: prod.splits)
qed

text \<open>
  C6. \<open>CopyStatus\<close> copies the struct, and with it the three slice headers: the
  copy shares the backing arrays of the job. All the same, for a well-formed status
  and whatever is written to the job after the snapshot (the status blocks of
  \<open>runJob\<close>, appends to stdout and to stderr, in place or with a new array), a
  reader of the snapshot sees after the writes what the job's status was when the
  snapshot was taken, in every field and in every element of the three sequences.
\<close>

theorem CopyStatus_unaffected_by_later_writes:
  assumes "status_ok h st"
  shows "readStatus (fst (mutations ms (h, st))) (CopyStatus st) = readStatus h st"
proof -
  obtain h' cur where r: "mutations ms (h, st) = (h', cur)"
    by (metis surj_pair)
  have "guarded h st (h, st)" using assms by (rule guarded_initial)
  then have "guarded h st (mutations ms (h, st))" by (rule guarded_mutations)
  then have "readStatus h' st = readStatus h st"
    unfolding r by (rule guarded_read)
  then show ?thesis by (simp add: r CopyStatus_eq)
qed

theorem CopyStatus_unaffected_by_later_writes_witness:
  "status_ok sharedStore sharedStatus \<and>
   fst (mutations laterWrites (sharedStore, sharedStatus))
     = [[''one'', ''two''], [''one'', ''two'', ''three'', []], [''oops'']] \<and>
   readStatus (fst (mutations laterWrites (sharedStore, sharedStatus)))
       (snd (mutations laterWrites (sharedStore, sharedStatus)))
     = (readStatus sharedStore sharedStatus)
         \<lparr>Status := STATUS_COMPLETED, FinishTime := 107, ExitCode := 0,
          Stdout := [''one'', ''two'', ''three''], Stderr := [''oops'']\<rparr> \<and>
   readStatus (fst (mutations laterWrites (sharedStore, sharedStatus))) (CopyStatus sharedStatus)
     = readStatus sharedStore sharedStatus"
proof -
  have ok: "status_ok sharedStore sharedStatus"
    by (simp add: status_ok_def slice_ok_def apart_def sharedStore_def sharedStatus_def nilSlice_def)
  have m: "mutations laterWrites (sharedStore, sharedStatus) =
      ([[''one'', ''two''], [''one'', ''two'', ''three'', []], [''oops'']],
       sharedStatus\<lparr>Status := STATUS_COMPLETED, FinishTime := 107, ExitCode := 0,
         Stdout := \<lparr>sarr = 1, slen = 3, scap = 4\<rparr>, Stderr := \<lparr>sarr = 2, slen = 1, scap = 1\<rparr>\<rparr>)"
    by (simp add: laterWrites_def sharedStore_def sharedStatus_def nilSlice_def mutate_def
        append_slice_def elems_def finalize_def Let_def)
  have r: "readStatus (fst (mutations laterWrites (sharedStore, sharedStatus)))
       (snd (mutations laterWrites (sharedStore, sharedStatus)))
     = (readStatus sharedStore sharedStatus)
         \<lparr>Status := STATUS_COMPLETED, FinishTime := 107, ExitCode := 0,
          Stdout := [''one'', ''two'', ''three''], Stderr := [''oops'']\<rparr>"
    unfolding m by (simp add: readStatus_def elems_def sharedStatus_def sharedStore_def nilSlice_def)
  have s: "fst (mutations laterWrites (sharedStore, sharedStatus))
     = [[''one'', ''two''], [''one'', ''two'', ''three'', []], [''oops'']]"
    unfolding m by simp
  from CopyStatus_unaffected_by_later_writes [OF ok, of laterWrites] ok r s show ?thesis
    by blast
qed

section \<open>The two models of the collector, and the ids of the jobs\<close>

text \<open>
  The two models of the collector agree: the goroutine of the transition system,
  left to run, ends with the sequence that \<open>copyPipeToStringArray\<close> computes.
\<close>

lemma collector_turns_finish:
  "\<exists>n. (collector_turn ^^ n) (Reading rc, dest) = (Finished, copyPipeToStringArray rc dest)"
proof (induction rc dest rule: copyPipeToStringArray.induct)
  case (1 rc dest)
  obtain s ok rest where r: "ReadString newline rc = ((s, ok), rest)"
    by (metis surj_pair)
  show ?case
  proof (cases ok)
    case True
    have "\<exists>n. (collector_turn ^^ n) (Reading rest, dest @ [TrimSpace s])
        = (Finished, copyPipeToStringArray rest (dest @ [TrimSpace s]))"
      using True r by (intro "1.IH" [of "(s, ok)" rest s ok]) simp_all
    then obtain n where n: "(collector_turn ^^ n) (Reading rest, dest @ [TrimSpace s])
        = (Finished, copyPipeToStringArray rest (dest @ [TrimSpace s]))"
      by blast
    have "collector_turn (Reading rc, dest) = (Reading rest, dest @ [TrimSpace s])"
      using r True by (simp add: collector_turn_def collector_read_def collector_append_def)
    then have "(collector_turn ^^ Suc n) (Reading rc, dest)
        = (Finished, copyPipeToStringArray rest (dest @ [TrimSpace s]))"
      using n by (simp add: funpow_swap1)
    moreover have "copyPipeToStringArray rc dest = copyPipeToStringArray rest (dest @ [TrimSpace s])"
      using r True by (simp add: copyPipeToStringArray.simps [of rc])
    ultimately show ?thesis by metis
  next
    case False
    have "collector_turn (Reading rc, dest) = (Finished, dest)"
      using r False by (simp add: collector_turn_def collector_read_def collector_append_def)
    moreover have "copyPipeToStringArray rc dest = dest"
      using r False by (simp add: copyPipeToStringArray.simps [of rc])
    ultimately have "(collector_turn ^^ Suc 0) (Reading rc, dest)
        = (Finished, copyPipeToStringArray rc dest)"
      by simp
    then show ?thesis by blast
  qed
qed

lemma step_nextID:
  "(nextID (step e s) = nextID s \<and> length (objs (step e s)) = length (objs s)) \<or>
   (nextID (step e s) = nextID s + 1 \<and> length (objs (step e s)) = Suc (length (objs s)) \<and>
    JobID (jobStatus (objs (step e s) ! length (objs s))) = nextID s)"
proof (cases e)
  case (StartJobCalled details)
  then show ?thesis
    by (simp add: step_def StartJob_spawn_rest StartJob_spawn_new)
      (simp add: StartJob_spawn_def getNewJobID_def)
next
  case (RunJobStep b os)
  then show ?thesis by (simp add: step_def split: prod.splits)
qed (simp_all add: step_def updateJob_def StopJob_state)

lemma step_ids_ok:
  assumes "ids_ok s"
  shows "ids_ok (step e s)"
proof -
  have old: "JobID (jobStatus (objs (step e s) ! a)) = of_nat a" if "a < length (objs s)" for a
  proof -
    have "submitted (jobStatus (objs (step e s) ! a)) = submitted (jobStatus (objs s ! a))"
      using step_moves [OF that] by (rule jobMoves_submitted)
    then show ?thesis using assms that by (simp add: submitted_def ids_ok_def)
  qed
  from step_nextID [of e s] show ?thesis
  proof
    assume "nextID (step e s) = nextID s \<and> length (objs (step e s)) = length (objs s)"
    then show ?thesis using assms old by (simp add: ids_ok_def)
  next
    assume n: "nextID (step e s) = nextID s + 1 \<and>
      length (objs (step e s)) = Suc (length (objs s)) \<and>
      JobID (jobStatus (objs (step e s) ! length (objs s))) = nextID s"
    have "JobID (jobStatus (objs (step e s) ! a)) = of_nat a"
      if "a < Suc (length (objs s))" for a
      using that n old assms by (cases "a = length (objs s)") (simp_all add: ids_ok_def)
    then show ?thesis using n assms by (simp add: ids_ok_def)
  qed
qed

lemma exec_ids_ok: "ids_ok s \<Longrightarrow> ids_ok (exec evs s)"
  by (induction evs arbitrary: s) (simp_all add: step_ids_ok)

lemma jobs_have_distinct_ids:
  assumes "a < b" and "b < length (objs (exec evs (NewServer commands t0)))"
    and "length (objs (exec evs (NewServer commands t0))) \<le> 2 ^ 64"
  shows "JobID (jobStatus (objs (exec evs (NewServer commands t0)) ! a))
       < JobID (jobStatus (objs (exec evs (NewServer commands t0)) ! b))"
proof -
  let ?s = "exec evs (NewServer commands t0)"
  have "ids_ok (NewServer commands t0)" by (simp add: ids_ok_def NewServer_def)
  then have "ids_ok ?s" by (rule exec_ids_ok)
  then have "JobID (jobStatus (objs ?s ! a)) = of_nat a" "JobID (jobStatus (objs ?s ! b)) = of_nat b"
    using assms by (simp_all add: ids_ok_def)
  moreover have "unat (of_nat a :: uint64) = a" "unat (of_nat b :: uint64) = b"
    using assms by (simp_all add: unat_of_nat)
  ultimately show ?thesis using assms(1) by (simp add: word_less_nat_alt)
qed

end
